theory Spec2Isabelle
  imports Complex_Main "HOL-Library.Word"
begin

section \<open>JavaScript values used by the matchers\<close>

text \<open>
  The component \<open>StringMatchingVisualizer\<close> (StringMatch.jsx) keeps \<open>text\<close> and
  \<open>pattern\<close> as JavaScript strings, that is, sequences of 16-bit code units.
  \<open>str[k]\<close> is a one-unit string for \<open>k < str.length\<close> and \<open>undefined\<close> otherwise;
  \<open>===\<close> on such values is equality, with \<open>undefined === undefined\<close> true.
\<close>

type_synonym jsstring = "16 word list"

definition get :: "'a list \<Rightarrow> nat \<Rightarrow> 'a option" where
  "get xs k = (if k < length xs then Some (xs ! k) else None)"

text \<open>
  A loop variable that holds an array index. In the KMP variant \<open>j\<close> is assigned from
  \<open>lps[j - 1]\<close>, which is \<open>undefined\<close> outside the table.
\<close>

datatype jsidx = Idx nat | Undefined

text \<open>\<open>arr[j]\<close> for such a variable; \<open>arr[undefined]\<close> is \<open>undefined\<close>.\<close>

fun get_at :: "'a list \<Rightarrow> jsidx \<Rightarrow> 'a option" where
  "get_at xs (Idx k) = get xs k"
| "get_at xs Undefined = None"

text \<open>\<open>arr[j - 1]\<close>: \<open>0 - 1\<close> is \<open>-1\<close> and \<open>undefined - 1\<close> is \<open>NaN\<close>, neither is an index.\<close>

fun get_before :: "nat list \<Rightarrow> jsidx \<Rightarrow> jsidx" where
  "get_before xs (Idx k) =
     (if k = 0 then Undefined
      else (case get xs (k - 1) of Some v \<Rightarrow> Idx v | None \<Rightarrow> Undefined))"
| "get_before xs Undefined = Undefined"

text \<open>Whether \<open>arr[j]\<close> and \<open>arr[j - 1]\<close> fall inside the array.\<close>

fun inside :: "'a list \<Rightarrow> jsidx \<Rightarrow> bool" where
  "inside xs (Idx k) = (k < length xs)"
| "inside xs Undefined = False"

fun inside_before :: "'a list \<Rightarrow> jsidx \<Rightarrow> bool" where
  "inside_before xs (Idx k) = (0 < k \<and> k - 1 < length xs)"
| "inside_before xs Undefined = False"

text \<open>
  JavaScript numbers are IEEE doubles. \<open>Number x\<close> stands for the finite double of value
  \<open>x\<close>. Every finite value that arises in this program is an integer below \<open>2^53\<close>, a
  code unit times a power of two, or a code unit divided by 256, so each sum, difference,
  product and remainder below is exact whenever it is finite; a product at or above
  \<open>2^1024\<close> is \<open>Infinity\<close>.
\<close>

datatype jsnum = Number rat | PosInfinity | NegInfinity | NaN

fun js_neg :: "jsnum \<Rightarrow> jsnum" where
  "js_neg (Number a) = Number (- a)"
| "js_neg PosInfinity = NegInfinity"
| "js_neg NegInfinity = PosInfinity"
| "js_neg NaN = NaN"

fun js_plus :: "jsnum \<Rightarrow> jsnum \<Rightarrow> jsnum" where
  "js_plus (Number a) (Number b) = Number (a + b)"
| "js_plus NaN _ = NaN"
| "js_plus _ NaN = NaN"
| "js_plus PosInfinity NegInfinity = NaN"
| "js_plus NegInfinity PosInfinity = NaN"
| "js_plus PosInfinity _ = PosInfinity"
| "js_plus NegInfinity _ = NegInfinity"
| "js_plus _ PosInfinity = PosInfinity"
| "js_plus _ NegInfinity = NegInfinity"

definition js_minus :: "jsnum \<Rightarrow> jsnum \<Rightarrow> jsnum" where
  "js_minus a b = js_plus a (js_neg b)"

definition signed_infinity :: "bool \<Rightarrow> jsnum" where
  "signed_infinity positive = (if positive then PosInfinity else NegInfinity)"

fun js_times :: "jsnum \<Rightarrow> jsnum \<Rightarrow> jsnum" where
  "js_times (Number a) (Number b) =
     (if \<bar>a * b\<bar> < 2 ^ 1024 then Number (a * b) else signed_infinity (0 < a * b))"
| "js_times NaN _ = NaN"
| "js_times _ NaN = NaN"
| "js_times (Number a) PosInfinity = (if a = 0 then NaN else signed_infinity (0 < a))"
| "js_times (Number a) NegInfinity = (if a = 0 then NaN else signed_infinity (a < 0))"
| "js_times PosInfinity (Number b) = (if b = 0 then NaN else signed_infinity (0 < b))"
| "js_times NegInfinity (Number b) = (if b = 0 then NaN else signed_infinity (b < 0))"
| "js_times PosInfinity PosInfinity = PosInfinity"
| "js_times NegInfinity NegInfinity = PosInfinity"
| "js_times PosInfinity NegInfinity = NegInfinity"
| "js_times NegInfinity PosInfinity = NegInfinity"

text \<open>\<open>a % b\<close>: the remainder has the sign of the dividend (truncated division).\<close>

definition truncate_quotient :: "rat \<Rightarrow> rat \<Rightarrow> int" where
  "truncate_quotient a b = (if 0 \<le> a / b then \<lfloor>a / b\<rfloor> else \<lceil>a / b\<rceil>)"

fun js_mod :: "jsnum \<Rightarrow> jsnum \<Rightarrow> jsnum" where
  "js_mod (Number a) (Number b) =
     (if b = 0 then NaN else Number (a - b * of_int (truncate_quotient a b)))"
| "js_mod (Number a) PosInfinity = Number a"
| "js_mod (Number a) NegInfinity = Number a"
| "js_mod _ _ = NaN"

text \<open>\<open>a === b\<close> on numbers: \<open>NaN\<close> equals nothing, itself included.\<close>

fun js_equals :: "jsnum \<Rightarrow> jsnum \<Rightarrow> bool" where
  "js_equals NaN _ = False"
| "js_equals _ NaN = False"
| "js_equals a b = (a = b)"

text \<open>
  \<open>Math.pow(256, k)\<close>: the exact power of two while it is a finite double, that is for
  \<open>k \<le> 127\<close>, and \<open>Infinity\<close> from \<open>256^128 = 2^1024\<close> on. The program calls it with
  \<open>k = pattern.length - 1\<close>, so \<open>k \<ge> -1\<close>.
\<close>

definition Math_pow256 :: "int \<Rightarrow> jsnum" where
  "Math_pow256 k = (if 128 \<le> k then PosInfinity else Number (256 powi k))"

text \<open>\<open>str.charCodeAt(k)\<close>: the code unit, \<open>NaN\<close> outside the string.\<close>

definition charCodeAt :: "jsstring \<Rightarrow> nat \<Rightarrow> jsnum" where
  "charCodeAt str k = (if k < length str then Number (of_nat (unat (str ! k))) else NaN)"

section \<open>Steps and traces\<close>

text \<open>One entry of a step's \<open>comparisons\<close> array: \<open>{textIndex, patternIndex, match}\<close>.\<close>

record comparison =
  cmp_textIndex :: nat
  cmp_patternIndex :: jsidx
  cmp_match :: bool

text \<open>
  The \<open>description\<close> template strings, with the interpolated position where there is one.
\<close>

datatype description =
    MatchFound jsnum
  | MismatchAt nat
  | MismatchPrefixShift
  | MismatchAtBeginning
  | HashMatchConfirmed nat
  | HashMatchSpurious
  | HashMismatch

text \<open>
  The algorithm-specific field of a step: none for Naive, \<open>prefixUse\<close> (\<open>null\<close> or
  \<open>{oldJ, newJ}\<close>) for KMP, \<open>hashInfo\<close> (\<open>{patternHash, textHash, hashMatch}\<close> and the
  \<open>spurious\<close> flag) for Rabin-Karp.
\<close>

datatype detail =
    NoDetail
  | PrefixUseNull
  | PrefixUse jsidx jsidx
  | HashInfo jsnum jsnum bool bool

record step =
  textIndex :: jsnum
  patternIndex :: nat
  comparisons :: "comparison list"
  totalComparisons :: nat
  description :: description
  detail :: detail

text \<open>One entry of \<open>history\<close>: \<open>{step, comparisons, totalComparisons}\<close>.\<close>

record history_entry =
  h_step :: nat
  h_comparisons :: nat
  h_totalComparisons :: nat

text \<open>
  The locals a matcher accumulates and hands over at its end: it returns \<open>steps\<close> and
  stores \<open>foundMatches\<close>, \<open>totalComparisons\<close> (field \<open>total\<close>) and \<open>history\<close> with
  \<open>setMatches\<close>, \<open>setComparisons\<close> and \<open>setComparisonHistory\<close>. The field \<open>oob\<close> is
  instrumentation, not a variable of the source: it is raised by every read of \<open>text\<close>,
  \<open>pattern\<close> or the prefix table whose index is outside the array.
\<close>

record run =
  steps :: "step list"
  foundMatches :: "int list"
  total :: nat
  history :: "history_entry list"
  oob :: bool

definition empty_run :: run where
  "empty_run = \<lparr>steps = [], foundMatches = [], total = 0, history = [], oob = False\<rparr>"

section \<open>Naive matching\<close>

text \<open>
  The inner \<open>for (j = 0; j < pattern.length; j++)\<close> loop, shared verbatim by
  \<open>naiveStringMatching\<close> and the confirmation of a hash hit in
  \<open>rabinKarpStringMatching\<close>. It stops with \<open>break\<close> at the first unequal pair and
  leaves \<open>j\<close> at that index.
\<close>

record inner =
  in_j :: nat
  currentComparisons :: "comparison list"
  in_total :: nat
  stepComparisons :: nat
  in_oob :: bool

function inner_loop :: "jsstring \<Rightarrow> jsstring \<Rightarrow> nat \<Rightarrow> inner \<Rightarrow> inner" where
  "inner_loop text pattern i s =
     (if in_j s < length pattern then
        let s' = s\<lparr>currentComparisons := currentComparisons s @
                      [\<lparr>cmp_textIndex = i + in_j s, cmp_patternIndex = Idx (in_j s),
                        cmp_match = (get text (i + in_j s) = get pattern (in_j s))\<rparr>],
                    in_total := in_total s + 1,
                    stepComparisons := stepComparisons s + 1,
                    in_oob := (in_oob s \<or> length text \<le> i + in_j s \<or> length pattern \<le> in_j s)\<rparr>
        in if get text (i + in_j s) \<noteq> get pattern (in_j s) then s'
           else inner_loop text pattern i (s'\<lparr>in_j := in_j s + 1\<rparr>)
      else s)"
  by pat_completeness auto
termination
  by (relation "measure (\<lambda>(text, pattern, i, s). length pattern - in_j s)") auto

declare inner_loop.simps [simp del]

text \<open>
  One iteration of the outer \<open>for (let i = 0; i <= text.length - pattern.length; i++)\<close>
  loop of \<open>naiveStringMatching\<close>, for the offset \<open>i\<close>, and the loop itself. The bound
  is negative when the pattern is longer than the text.
\<close>

definition naive_body :: "jsstring \<Rightarrow> jsstring \<Rightarrow> nat \<Rightarrow> run \<Rightarrow> run" where
  "naive_body text pattern i r =
     (let s = inner_loop text pattern i
                \<lparr>in_j = 0, currentComparisons = [], in_total = total r,
                  stepComparisons = 0, in_oob = oob r\<rparr>
      in \<lparr>steps = steps r @
             [\<lparr>textIndex = Number (of_nat i), patternIndex = 0,
               comparisons = currentComparisons s,
               totalComparisons = in_total s,
               description = (if in_j s = length pattern then MatchFound (Number (of_nat i))
                              else MismatchAt (i + in_j s)),
               detail = NoDetail\<rparr>],
           foundMatches = (if in_j s = length pattern then foundMatches r @ [int i]
                           else foundMatches r),
           total = in_total s,
           history = history r @
             [\<lparr>h_step = i, h_comparisons = stepComparisons s,
               h_totalComparisons = in_total s\<rparr>],
           oob = in_oob s\<rparr>)"

function naive_loop :: "jsstring \<Rightarrow> jsstring \<Rightarrow> nat \<Rightarrow> run \<Rightarrow> run" where
  "naive_loop text pattern i r =
     (if int i \<le> int (length text) - int (length pattern) then
        naive_loop text pattern (i + 1) (naive_body text pattern i r)
      else r)"
  by pat_completeness auto
termination
  by (relation "measure (\<lambda>(text, pattern, i, r).
        nat (int (length text) - int (length pattern) + 1 - int i))") auto

declare naive_loop.simps [simp del]

definition naiveStringMatching :: "jsstring \<Rightarrow> jsstring \<Rightarrow> run" where
  "naiveStringMatching text pattern = naive_loop text pattern 0 empty_run"

section \<open>Knuth-Morris-Pratt matching\<close>

text \<open>
  \<open>computeKMPPrefixTable\<close>: \<open>lps\<close> starts as \<open>Array(pattern.length).fill(0)\<close>; the
  loop runs while \<open>i < pattern.length\<close>, so every write \<open>lps[i] = \<dots>\<close> stays inside
  the array. One iteration of the \<open>while\<close> is \<open>lps_body\<close>. Whether the loop ends depends
  on the table it is reading, hence the loop returns an option: \<open>None\<close> is a run that
  never leaves the loop.
\<close>

record lps_state =
  lps :: "nat list"
  len :: jsidx
  lps_i :: nat
  lps_oob :: bool

fun increment :: "jsidx \<Rightarrow> jsidx" where
  "increment (Idx k) = Idx (k + 1)"
| "increment Undefined = Undefined"

definition lps_body :: "jsstring \<Rightarrow> lps_state \<Rightarrow> lps_state" where
  "lps_body pattern s =
     (let read = (lps_oob s \<or> length pattern \<le> lps_i s \<or> \<not> inside pattern (len s)) in
      if get pattern (lps_i s) = get_at pattern (len s) then
        (case increment (len s) of
           Idx l \<Rightarrow> s\<lparr>lps := (lps s)[lps_i s := l], len := Idx l,
                      lps_i := lps_i s + 1, lps_oob := read\<rparr>
         | Undefined \<Rightarrow> s\<lparr>lps_oob := read\<rparr>)
      else if len s \<noteq> Idx 0 then
        s\<lparr>len := get_before (lps s) (len s),
          lps_oob := (read \<or> \<not> inside_before (lps s) (len s))\<rparr>
      else
        s\<lparr>lps := (lps s)[lps_i s := 0], lps_i := lps_i s + 1, lps_oob := read\<rparr>)"

text \<open>
  The case \<open>Undefined\<close> after \<open>len++\<close> cannot be reached inside the loop: there
  \<open>pattern[i]\<close> is defined, so the equality test fails for an undefined \<open>len\<close>.
\<close>

partial_function (option) lps_loop :: "jsstring \<Rightarrow> lps_state \<Rightarrow> lps_state option" where
  "lps_loop pattern s =
     (if lps_i s < length pattern then lps_loop pattern (lps_body pattern s) else Some s)"

declare lps_loop.simps [code]

definition lps_init :: "jsstring \<Rightarrow> lps_state" where
  "lps_init pattern =
     \<lparr>lps = replicate (length pattern) 0, len = Idx 0, lps_i = 1, lps_oob = False\<rparr>"

definition computeKMPPrefixTable :: "jsstring \<Rightarrow> lps_state option" where
  "computeKMPPrefixTable pattern = lps_loop pattern (lps_init pattern)"

text \<open>\<open>i - j\<close> for a number \<open>i\<close> and the variable \<open>j\<close>: \<open>NaN\<close> when \<open>j\<close> is undefined.\<close>

fun to_number :: "jsidx \<Rightarrow> jsnum" where
  "to_number (Idx k) = Number (of_nat k)"
| "to_number Undefined = NaN"

definition offset :: "nat \<Rightarrow> jsidx \<Rightarrow> jsnum" where
  "offset i j = js_minus (Number (of_nat i)) (to_number j)"

record kmp_state =
  k_i :: nat
  k_j :: jsidx
  k_step :: nat
  k_run :: run

text \<open>
  One iteration of the \<open>while (i < text.length)\<close> loop of \<open>kmpStringMatching\<close>. The
  comparison is recorded and counted first; \<open>i1\<close>, \<open>j1\<close> are \<open>i\<close>, \<open>j\<close> after the
  conditional \<open>i++; j++\<close>. A step is pushed in the branch \<open>j === pattern.length\<close> and
  in the branch \<open>i < text.length && text[i] !== pattern[j]\<close>, and in no other case.
\<close>

definition kmp_body :: "nat list \<Rightarrow> jsstring \<Rightarrow> jsstring \<Rightarrow> kmp_state \<Rightarrow> kmp_state" where
  "kmp_body table text pattern s =
     (let i = k_i s; j = k_j s; r = k_run s;
          equal = (get text i = get_at pattern j);
          currentComparisons = [\<lparr>cmp_textIndex = i, cmp_patternIndex = j, cmp_match = equal\<rparr>];
          totalComparisons = total r + 1;
          stepComparisons = 1;
          read = (oob r \<or> length text \<le> i \<or> \<not> inside pattern j);
          i1 = (if equal then i + 1 else i);
          j1 = (if equal then increment j else j)
      in
      if j1 = Idx (length pattern) then
        \<lparr>k_i = i1, k_j = get_before table j1, k_step = k_step s + 1,
          k_run = \<lparr>steps = steps r @
                     [\<lparr>textIndex = offset i1 j1, patternIndex = 0,
                       comparisons = currentComparisons,
                       totalComparisons = totalComparisons,
                       description = MatchFound (offset i1 j1),
                       detail = PrefixUseNull\<rparr>],
                   foundMatches = foundMatches r @ [int i1 - int (length pattern)],
                   total = totalComparisons,
                   history = history r @
                     [\<lparr>h_step = k_step s, h_comparisons = stepComparisons,
                       h_totalComparisons = totalComparisons\<rparr>],
                   oob = (read \<or> \<not> inside_before table j1)\<rparr>\<rparr>
      else if i1 < length text \<and> get text i1 \<noteq> get_at pattern j1 then
        (if j1 \<noteq> Idx 0 then
           let j2 = get_before table j1 in
           \<lparr>k_i = i1, k_j = j2, k_step = k_step s + 1,
             k_run = \<lparr>steps = steps r @
                        [\<lparr>textIndex = offset i1 j2, patternIndex = 0,
                          comparisons = currentComparisons,
                          totalComparisons = totalComparisons,
                          description = MismatchPrefixShift,
                          detail = PrefixUse j1 j2\<rparr>],
                      foundMatches = foundMatches r,
                      total = totalComparisons,
                      history = history r @
                        [\<lparr>h_step = k_step s, h_comparisons = stepComparisons,
                          h_totalComparisons = totalComparisons\<rparr>],
                      oob = (read \<or> \<not> inside pattern j1 \<or> \<not> inside_before table j1)\<rparr>\<rparr>
         else
           \<lparr>k_i = i1 + 1, k_j = j1, k_step = k_step s + 1,
             k_run = \<lparr>steps = steps r @
                        [\<lparr>textIndex = offset i1 j1, patternIndex = 0,
                          comparisons = currentComparisons,
                          totalComparisons = totalComparisons,
                          description = MismatchAtBeginning,
                          detail = PrefixUseNull\<rparr>],
                      foundMatches = foundMatches r,
                      total = totalComparisons,
                      history = history r @
                        [\<lparr>h_step = k_step s, h_comparisons = stepComparisons,
                          h_totalComparisons = totalComparisons\<rparr>],
                      oob = (read \<or> \<not> inside pattern j1)\<rparr>\<rparr>)
      else
        \<lparr>k_i = i1, k_j = j1, k_step = k_step s,
          k_run = r\<lparr>total := totalComparisons,
                    oob := (read \<or> (i1 < length text \<and> \<not> inside pattern j1))\<rparr>\<rparr>)"

partial_function (option) kmp_loop ::
    "nat list \<Rightarrow> jsstring \<Rightarrow> jsstring \<Rightarrow> kmp_state \<Rightarrow> kmp_state option" where
  "kmp_loop table text pattern s =
     (if k_i s < length text then kmp_loop table text pattern (kmp_body table text pattern s)
      else Some s)"

declare kmp_loop.simps [code]

definition kmp_init :: "bool \<Rightarrow> kmp_state" where
  "kmp_init table_oob = \<lparr>k_i = 0, k_j = Idx 0, k_step = 0, k_run = empty_run\<lparr>oob := table_oob\<rparr>\<rparr>"

definition kmpStringMatching :: "jsstring \<Rightarrow> jsstring \<Rightarrow> run option" where
  "kmpStringMatching text pattern =
     (case computeKMPPrefixTable pattern of
        None \<Rightarrow> None
      | Some t \<Rightarrow>
          (case kmp_loop (lps t) text pattern (kmp_init (lps_oob t)) of
             None \<Rightarrow> None
           | Some s \<Rightarrow> Some (k_run s)))"

section \<open>Rabin-Karp matching\<close>

definition prime :: jsnum where
  "prime = Number 101"

text \<open>
  \<open>calculateHash(str, start, end)\<close>; the second component is the instrumentation of
  \<open>run\<close>, raised when \<open>charCodeAt\<close> is called outside \<open>str\<close>.
\<close>

function calculateHash_loop :: "jsstring \<Rightarrow> nat \<Rightarrow> nat \<Rightarrow> jsnum \<Rightarrow> bool \<Rightarrow> jsnum \<times> bool" where
  "calculateHash_loop str stop i hash ob =
     (if i < stop then
        calculateHash_loop str stop (i + 1)
          (js_mod (js_plus (js_times hash (Number 256)) (charCodeAt str i)) prime)
          (ob \<or> length str \<le> i)
      else (hash, ob))"
  by pat_completeness auto
termination
  by (relation "measure (\<lambda>(str, stop, i, hash, ob). stop - i)") auto

declare calculateHash_loop.simps [simp del]

definition calculateHash :: "jsstring \<Rightarrow> nat \<Rightarrow> nat \<Rightarrow> jsnum \<times> bool" where
  "calculateHash str start stop = calculateHash_loop str stop start (Number 0) False"

text \<open>
  The update of \<open>textHash\<close> after window \<open>i\<close>, for a pattern of \<open>m\<close> code units:
  \<open>((textHash - ((text.charCodeAt(i) * Math.pow(256, m - 1)) % prime) + prime) * 256
     + text.charCodeAt(i + m)) % prime\<close>.
\<close>

definition roll :: "jsstring \<Rightarrow> nat \<Rightarrow> nat \<Rightarrow> jsnum \<Rightarrow> jsnum" where
  "roll text m i textHash =
     js_mod
       (js_plus
          (js_times
             (js_plus
                (js_minus textHash
                   (js_mod (js_times (charCodeAt text i) (Math_pow256 (int m - 1))) prime))
                prime)
             (Number 256))
          (charCodeAt text (i + m)))
       prime"

text \<open>
  One iteration of the window loop of \<open>rabinKarpStringMatching\<close>, for the offset \<open>i\<close>.
  The hash test is counted before anything else; \<open>setCurrentHash\<close> stores the same
  three values that \<open>hashInfo\<close> carries in the step. \<open>rk_body\<close> is the effect on the
  accumulated locals, \<open>rk_hash\<close> the value of \<open>textHash\<close> after the iteration: it is
  rolled when another window remains.
\<close>

definition rk_body :: "jsstring \<Rightarrow> jsstring \<Rightarrow> jsnum \<Rightarrow> nat \<Rightarrow> jsnum \<Rightarrow> run \<Rightarrow> run" where
  "rk_body text pattern patternHash i textHash r =
     (let hashMatch = js_equals textHash patternHash;
          r1 =
            (if hashMatch then
               let s = inner_loop text pattern i
                         \<lparr>in_j = 0, currentComparisons = [], in_total = total r + 1,
                           stepComparisons = 1, in_oob = oob r\<rparr>
               in \<lparr>steps = steps r @
                      [\<lparr>textIndex = Number (of_nat i), patternIndex = 0,
                        comparisons = currentComparisons s,
                        totalComparisons = in_total s,
                        description = (if in_j s = length pattern then HashMatchConfirmed i
                                       else HashMatchSpurious),
                        detail = HashInfo patternHash textHash True
                                   (in_j s \<noteq> length pattern)\<rparr>],
                    foundMatches = (if in_j s = length pattern then foundMatches r @ [int i]
                                    else foundMatches r),
                    total = in_total s,
                    history = history r @
                      [\<lparr>h_step = i, h_comparisons = stepComparisons s,
                        h_totalComparisons = in_total s\<rparr>],
                    oob = in_oob s\<rparr>
             else
               \<lparr>steps = steps r @
                  [\<lparr>textIndex = Number (of_nat i), patternIndex = 0,
                    comparisons = [],
                    totalComparisons = total r + 1,
                    description = HashMismatch,
                    detail = HashInfo patternHash textHash False False\<rparr>],
                foundMatches = foundMatches r,
                total = total r + 1,
                history = history r @
                  [\<lparr>h_step = i, h_comparisons = 1, h_totalComparisons = total r + 1\<rparr>],
                oob = oob r\<rparr>)
      in if int i < int (length text) - int (length pattern) then
           r1\<lparr>oob := (oob r1 \<or> length text \<le> i \<or> length text \<le> i + length pattern)\<rparr>
         else r1)"

definition rk_hash :: "jsstring \<Rightarrow> jsstring \<Rightarrow> nat \<Rightarrow> jsnum \<Rightarrow> jsnum" where
  "rk_hash text pattern i textHash =
     (if int i < int (length text) - int (length pattern)
      then roll text (length pattern) i textHash else textHash)"

function rk_loop :: "jsstring \<Rightarrow> jsstring \<Rightarrow> jsnum \<Rightarrow> nat \<Rightarrow> jsnum \<Rightarrow> run \<Rightarrow> run" where
  "rk_loop text pattern patternHash i textHash r =
     (if int i \<le> int (length text) - int (length pattern) then
        rk_loop text pattern patternHash (i + 1) (rk_hash text pattern i textHash)
          (rk_body text pattern patternHash i textHash r)
      else r)"
  by pat_completeness auto
termination
  by (relation "measure (\<lambda>(text, pattern, patternHash, i, textHash, r).
        nat (int (length text) - int (length pattern) + 1 - int i))") auto

declare rk_loop.simps [simp del]

definition rabinKarpStringMatching :: "jsstring \<Rightarrow> jsstring \<Rightarrow> run" where
  "rabinKarpStringMatching text pattern =
     (let patternHash = calculateHash pattern 0 (length pattern);
          textHash = calculateHash text 0 (length pattern)
      in rk_loop text pattern (fst patternHash) 0 (fst textHash)
           (empty_run\<lparr>oob := (snd patternHash \<or> snd textHash)\<rparr>))"

section \<open>Choosing the algorithm, and the start control\<close>

text \<open>
  \<open>generateSteps\<close> switches on the tag held in \<open>algorithm\<close> and returns the steps; the
  \<open>default\<close> branch leaves \<open>generatedSteps\<close> as the empty array. The result is an option
  because the KMP loops may not return.
\<close>

definition generateSteps :: "string \<Rightarrow> jsstring \<Rightarrow> jsstring \<Rightarrow> step list option" where
  "generateSteps algorithm text pattern =
     (if algorithm = ''naive'' then Some (steps (naiveStringMatching text pattern))
      else if algorithm = ''kmp'' then map_option steps (kmpStringMatching text pattern)
      else if algorithm = ''rabin-karp'' then Some (steps (rabinKarpStringMatching text pattern))
      else Some [])"

text \<open>
  The \<open>disabled\<close> attribute of the Start button, the only caller of
  \<open>startVisualization\<close> and so of \<open>generateSteps\<close>.
\<close>

definition start_disabled :: "bool \<Rightarrow> jsstring \<Rightarrow> jsstring \<Rightarrow> bool" where
  "start_disabled isRunning text pattern =
     (isRunning \<or> length text = 0 \<or> length pattern = 0)"

section \<open>Counting only\<close>

text \<open>
  \<open>countNaiveComparisons\<close>, \<open>countKMPComparisons\<close> and \<open>countRabinKarpComparisons\<close> of
  \<open>generatePerformanceData\<close> repeat the three loops and keep one counter, \<open>comparisons\<close>, written \<open>cnt\<close> here.
\<close>

function count_inner :: "jsstring \<Rightarrow> jsstring \<Rightarrow> nat \<Rightarrow> nat \<Rightarrow> nat \<Rightarrow> nat" where
  "count_inner text pattern i j cnt =
     (if j < length pattern then
        (if get text (i + j) \<noteq> get pattern j then cnt + 1
         else count_inner text pattern i (j + 1) (cnt + 1))
      else cnt)"
  by pat_completeness auto
termination
  by (relation "measure (\<lambda>(text, pattern, i, j, cnt). length pattern - j)") auto

declare count_inner.simps [simp del]

function countNaive_loop :: "jsstring \<Rightarrow> jsstring \<Rightarrow> nat \<Rightarrow> nat \<Rightarrow> nat" where
  "countNaive_loop text pattern i cnt =
     (if int i \<le> int (length text) - int (length pattern) then
        countNaive_loop text pattern (i + 1) (count_inner text pattern i 0 cnt)
      else cnt)"
  by pat_completeness auto
termination
  by (relation "measure (\<lambda>(text, pattern, i, cnt).
        nat (int (length text) - int (length pattern) + 1 - int i))") auto

declare countNaive_loop.simps [simp del]

definition countNaiveComparisons :: "jsstring \<Rightarrow> jsstring \<Rightarrow> nat" where
  "countNaiveComparisons text pattern = countNaive_loop text pattern 0 0"

text \<open>
  \<open>countKMPComparisons\<close> builds the table with the loop body of
  \<open>computeKMPPrefixTable\<close> and counts each of its iterations, then searches with the
  loop body of \<open>kmpStringMatching\<close> stripped of the steps.
\<close>

partial_function (option) count_lps_loop ::
    "jsstring \<Rightarrow> nat \<Rightarrow> lps_state \<Rightarrow> (nat \<times> lps_state) option" where
  "count_lps_loop pattern cnt s =
     (if lps_i s < length pattern then
        count_lps_loop pattern (cnt + 1) (lps_body pattern s)
      else Some (cnt, s))"

declare count_lps_loop.simps [code]

definition count_kmp_body :: "nat list \<Rightarrow> jsstring \<Rightarrow> jsstring \<Rightarrow> nat \<Rightarrow> jsidx \<Rightarrow> nat \<times> jsidx" where
  "count_kmp_body table text pattern i j =
     (let equal = (get text i = get_at pattern j);
          i1 = (if equal then i + 1 else i);
          j1 = (if equal then increment j else j)
      in
      if j1 = Idx (length pattern) then (i1, get_before table j1)
      else if i1 < length text \<and> get text i1 \<noteq> get_at pattern j1 then
        (if j1 \<noteq> Idx 0 then (i1, get_before table j1) else (i1 + 1, j1))
      else (i1, j1))"

partial_function (option) count_kmp_loop ::
    "nat list \<Rightarrow> jsstring \<Rightarrow> jsstring \<Rightarrow> nat \<Rightarrow> nat \<times> jsidx \<Rightarrow> nat option" where
  "count_kmp_loop table text pattern cnt ij =
     (if fst ij < length text then
        count_kmp_loop table text pattern (cnt + 1)
          (count_kmp_body table text pattern (fst ij) (snd ij))
      else Some cnt)"

declare count_kmp_loop.simps [code]

definition countKMPComparisons :: "jsstring \<Rightarrow> jsstring \<Rightarrow> nat option" where
  "countKMPComparisons text pattern =
     (case count_lps_loop pattern 0 (lps_init pattern) of
        None \<Rightarrow> None
      | Some (cnt, t) \<Rightarrow> count_kmp_loop (lps t) text pattern cnt (0, Idx 0))"

function countRK_loop :: "jsstring \<Rightarrow> jsstring \<Rightarrow> jsnum \<Rightarrow> nat \<Rightarrow> jsnum \<Rightarrow> nat \<Rightarrow> nat" where
  "countRK_loop text pattern patternHash i textHash cnt =
     (if int i \<le> int (length text) - int (length pattern) then
        countRK_loop text pattern patternHash (i + 1) (rk_hash text pattern i textHash)
          (if js_equals textHash patternHash
           then count_inner text pattern i 0 (cnt + 1) else cnt + 1)
      else cnt)"
  by pat_completeness auto
termination
  by (relation "measure (\<lambda>(text, pattern, patternHash, i, textHash, cnt).
        nat (int (length text) - int (length pattern) + 1 - int i))") auto

declare countRK_loop.simps [simp del]

definition countRabinKarpComparisons :: "jsstring \<Rightarrow> jsstring \<Rightarrow> nat" where
  "countRabinKarpComparisons text pattern =
     countRK_loop text pattern (fst (calculateHash pattern 0 (length pattern))) 0
       (fst (calculateHash text 0 (length pattern))) 0"

section \<open>Notions used in the statements and proofs\<close>

text \<open>The step the Naive variant pushes at offset \<open>i\<close> when the pattern is empty.\<close>

definition empty_pattern_step :: "nat \<Rightarrow> step" where
  "empty_pattern_step i =
     \<lparr>textIndex = Number (of_nat i), patternIndex = 0, comparisons = [],
       totalComparisons = 0, description = MatchFound (Number (of_nat i)),
       detail = NoDetail\<rparr>"

text \<open>
  What the KMP loops rely on: a prefix table as long as the pattern whose entry \<open>k\<close> is
  at most \<open>k\<close>, so that \<open>lps[j - 1] < j\<close>; a defined \<open>len\<close> below \<open>i\<close> while the table is
  built; a defined \<open>j\<close> below \<open>pattern.length\<close> and not beyond \<open>i\<close> during the search.
  The two measures decrease with every iteration of the respective loop.
\<close>

definition idx_value :: "jsidx \<Rightarrow> nat" where
  "idx_value j = (case j of Idx k \<Rightarrow> k | Undefined \<Rightarrow> 0)"

definition table_ok :: "nat list \<Rightarrow> jsstring \<Rightarrow> bool" where
  "table_ok table pattern =
     (length table = length pattern \<and> (\<forall>k<length table. table ! k \<le> k))"

definition lps_inv :: "jsstring \<Rightarrow> lps_state \<Rightarrow> bool" where
  "lps_inv pattern s =
     (\<exists>l. len s = Idx l \<and> l < lps_i s \<and> table_ok (lps s) pattern \<and> \<not> lps_oob s)"

definition lps_measure :: "jsstring \<Rightarrow> lps_state \<Rightarrow> nat" where
  "lps_measure pattern s = 2 * (length pattern - lps_i s) + idx_value (len s)"

definition kmp_measure :: "jsstring \<Rightarrow> kmp_state \<Rightarrow> nat" where
  "kmp_measure text s = 2 * (length text - k_i s) + idx_value (k_j s)"

definition kmp_pos :: "jsstring \<Rightarrow> jsstring \<Rightarrow> nat \<Rightarrow> jsidx \<Rightarrow> bool" where
  "kmp_pos text pattern i j =
     (\<exists>k. j = Idx k \<and> k < length pattern \<and> k \<le> i \<and> i \<le> length text)"

text \<open>
  The number of comparison records in the steps \<open>0, \<dots>, k\<close> of a trace, and in all of
  its steps.
\<close>

definition records :: "step list \<Rightarrow> nat" where
  "records ss = sum_list (map (\<lambda>s. length (comparisons s)) ss)"

definition records_upto :: "step list \<Rightarrow> nat \<Rightarrow> nat" where
  "records_upto ss k = records (take (Suc k) ss)"

text \<open>
  The counter of a run agrees with the records of its steps, with \<open>u\<close> further units
  per step: \<open>u = 0\<close> for Naive, \<open>u = 1\<close> (the hash test of the window) for Rabin-Karp.
\<close>

definition conserved :: "nat \<Rightarrow> run \<Rightarrow> bool" where
  "conserved u r =
     ((\<forall>k<length (steps r).
         totalComparisons (steps r ! k) = records_upto (steps r) k + u * Suc k) \<and>
      total r = records (steps r) + u * length (steps r))"

text \<open>The same with \<open>\<le>\<close>, for KMP, where an iteration may count without a step.\<close>

definition bounded :: "run \<Rightarrow> bool" where
  "bounded r =
     ((\<forall>k<length (steps r).
         length (comparisons (steps r ! k)) = 1 \<and>
         records_upto (steps r) k \<le> totalComparisons (steps r ! k) \<and>
         totalComparisons (steps r ! k) \<le> total r) \<and>
      records (steps r) \<le> total r)"

text \<open>
  The window hash as the Rabin-Karp loop obtains it: the hash of the first window, then
  one \<open>roll\<close> per offset.
\<close>

fun rolled :: "jsstring \<Rightarrow> nat \<Rightarrow> nat \<Rightarrow> jsnum" where
  "rolled text m 0 = fst (calculateHash text 0 m)"
| "rolled text m (Suc i) = roll text m i (rolled text m i)"

text \<open>
  The arithmetic of the rolls before window \<open>i\<close> is exact integer arithmetic when every
  product \<open>text.charCodeAt(k) * Math.pow(256, m - 1)\<close> they compute is a finite double.
  All other intermediate values stay below \<open>2^53\<close>.
\<close>

fun is_finite :: "jsnum \<Rightarrow> bool" where
  "is_finite (Number a) = True"
| "is_finite PosInfinity = False"
| "is_finite NegInfinity = False"
| "is_finite NaN = False"

definition exact_rolls :: "jsstring \<Rightarrow> nat \<Rightarrow> nat \<Rightarrow> bool" where
  "exact_rolls text m i =
     list_all (\<lambda>k. is_finite (js_times (charCodeAt text k) (Math_pow256 (int m - 1)))) [0..<i]"

text \<open>
  The same hash over the natural numbers: the code units of a string, one step of
  \<open>calculateHash\<close>, the code units of the window of \<open>m\<close> symbols at offset \<open>i\<close>, their
  hash, and their value as a number in base 256.
\<close>

definition codes :: "jsstring \<Rightarrow> nat list" where
  "codes str = map unat str"

definition hash_step :: "nat \<Rightarrow> nat \<Rightarrow> nat" where
  "hash_step h c = (h * 256 + c) mod 101"

definition window :: "jsstring \<Rightarrow> nat \<Rightarrow> nat \<Rightarrow> nat list" where
  "window text m i = codes (take m (drop i text))"

definition hash_of :: "nat list \<Rightarrow> nat" where
  "hash_of cs = foldl hash_step 0 cs"

definition val :: "nat list \<Rightarrow> nat" where
  "val cs = foldl (\<lambda>v c. v * 256 + c) 0 cs"

text \<open>A step of the Rabin-Karp trace whose \<open>hashInfo\<close> holds the given two hashes.\<close>

definition hash_recorded :: "jsnum \<Rightarrow> jsnum \<Rightarrow> step \<Rightarrow> bool" where
  "hash_recorded ph th s = (\<exists>hm sp. detail s = HashInfo ph th hm sp)"

text \<open>The pattern occurs in the text at offset \<open>i\<close>.\<close>

definition match_at :: "jsstring \<Rightarrow> jsstring \<Rightarrow> nat \<Rightarrow> bool" where
  "match_at text pattern i = (\<forall>j<length pattern. get text (i + j) = get pattern j)"

text \<open>A text of 130 and a pattern of 129 letters \<open>A\<close>.\<close>

definition A130 :: jsstring where "A130 = replicate 130 65"

definition A129 :: jsstring where "A129 = replicate 129 65"

text \<open>
  \<open>n\<close> steps of \<open>calculateHash\<close> over the letter \<open>A\<close> (code unit 65) act on the hash as
  \<open>h \<mapsto> (a * h + b) mod 101\<close>.
\<close>

definition affine :: "nat \<Rightarrow> nat \<Rightarrow> nat \<Rightarrow> bool" where
  "affine n a b = (\<forall>h. foldl hash_step h (replicate n 65) = (a * h + b) mod 101)"

section \<open>The KMP loops return\<close>

lemma lps_loop_rule:
  assumes "I s"
    and step: "\<And>s. I s \<Longrightarrow> lps_i s < length pattern \<Longrightarrow>
                 I (lps_body pattern s) \<and> f (lps_body pattern s) < (f s :: nat)"
  shows "\<exists>s'. lps_loop pattern s = Some s' \<and> I s' \<and> \<not> lps_i s' < length pattern"
  using assms(1)
proof (induction "f s" arbitrary: s rule: less_induct)
  case less
  show ?case
  proof (cases "lps_i s < length pattern")
    case True
    from step [OF less.prems True]
    have inv: "I (lps_body pattern s)" and dec: "f (lps_body pattern s) < f s" by auto
    from less.hyps [OF dec inv] show ?thesis
      using True by (subst lps_loop.simps) simp
  next
    case False
    then show ?thesis using less.prems by (subst lps_loop.simps) simp
  qed
qed

lemma table_ok_update:
  "table_ok table pattern \<Longrightarrow> v \<le> i \<Longrightarrow> table_ok (table[i := v]) pattern"
  by (cases "i < length table") (auto simp: table_ok_def nth_list_update)

lemma lps_body_inv:
  assumes "lps_inv pattern s" "lps_i s < length pattern"
  shows "lps_inv pattern (lps_body pattern s) \<and>
         lps_measure pattern (lps_body pattern s) < lps_measure pattern s"
proof -
  from assms(1) obtain l where l: "len s = Idx l" "l < lps_i s"
    and ok: "table_ok (lps s) pattern" and nb: "\<not> lps_oob s"
    by (auto simp: lps_inv_def)
  have lm: "l < length pattern" using l assms(2) by simp
  show ?thesis
  proof (cases "get pattern (lps_i s) = get pattern l")
    case True
    then show ?thesis
      using l ok nb assms(2) lm
      by (simp add: lps_body_def lps_inv_def lps_measure_def idx_value_def table_ok_update)
  next
    case False
    show ?thesis
    proof (cases "l = 0")
      case True
      then show ?thesis
        using False l ok nb assms(2) lm
        by (simp add: lps_body_def lps_inv_def lps_measure_def idx_value_def table_ok_update)
    next
      case nz: False
      have "l - 1 < length (lps s)" using lm ok by (simp add: table_ok_def)
      moreover have "lps s ! (l - 1) \<le> l - 1" using ok calculation by (simp add: table_ok_def)
      moreover have "lps s ! (l - 1) < l" using calculation nz by simp
      moreover have "lps s ! (l - 1) < lps_i s" using calculation l by simp
      ultimately show ?thesis
        using False nz l ok nb assms(2) lm
        by (simp add: lps_body_def lps_inv_def lps_measure_def idx_value_def get_def)
    qed
  qed
qed

lemma lps_init_inv: "lps_inv pattern (lps_init pattern)"
  by (simp add: lps_inv_def lps_init_def table_ok_def)

lemma computeKMPPrefixTable_returns:
  "\<exists>t. computeKMPPrefixTable pattern = Some t \<and> table_ok (lps t) pattern \<and> \<not> lps_oob t"
proof -
  from lps_loop_rule [where I = "lps_inv pattern" and f = "lps_measure pattern", OF lps_init_inv lps_body_inv]
  obtain t where "lps_loop pattern (lps_init pattern) = Some t" "lps_inv pattern t"
    by blast
  then show ?thesis by (auto simp: computeKMPPrefixTable_def lps_inv_def)
qed


lemma kmp_loop_rule:
  assumes "I s"
    and step: "\<And>s. I s \<Longrightarrow> k_i s < length text \<Longrightarrow>
                 I (kmp_body table text pattern s) \<and>
                 f (kmp_body table text pattern s) < (f s :: nat)"
  shows "\<exists>s'. kmp_loop table text pattern s = Some s' \<and> I s' \<and> \<not> k_i s' < length text"
  using assms(1)
proof (induction "f s" arbitrary: s rule: less_induct)
  case less
  show ?case
  proof (cases "k_i s < length text")
    case True
    from step [OF less.prems True]
    have inv: "I (kmp_body table text pattern s)"
      and dec: "f (kmp_body table text pattern s) < f s" by auto
    from less.hyps [OF dec inv] show ?thesis
      using True by (subst kmp_loop.simps) simp
  next
    case False
    then show ?thesis using less.prems by (subst kmp_loop.simps) simp
  qed
qed

lemma kmp_body_ij:
  "(k_i (kmp_body table text pattern s), k_j (kmp_body table text pattern s)) =
     count_kmp_body table text pattern (k_i s) (k_j s)"
  by (cases "k_j s") (auto simp: kmp_body_def count_kmp_body_def Let_def)

lemma kmp_body_total:
  "total (k_run (kmp_body table text pattern s)) = total (k_run s) + 1"
  by (simp add: kmp_body_def Let_def)

lemma table_ok_before:
  assumes "table_ok table pattern" "0 < k" "k \<le> length pattern"
  shows "\<exists>v. get_before table (Idx k) = Idx v \<and> v < k \<and> inside_before table (Idx k)"
proof -
  have "k - 1 < length table" using assms by (simp add: table_ok_def)
  moreover have "table ! (k - 1) \<le> k - 1" using assms calculation by (simp add: table_ok_def)
  ultimately show ?thesis using assms by (simp add: get_def)
qed

lemma count_kmp_body_pos:
  assumes ok: "table_ok table pattern" and pos: "kmp_pos text pattern i j" and run: "i < length text"
  shows "kmp_pos text pattern (fst (count_kmp_body table text pattern i j))
           (snd (count_kmp_body table text pattern i j)) \<and>
         2 * (length text - fst (count_kmp_body table text pattern i j)) +
           idx_value (snd (count_kmp_body table text pattern i j))
         < 2 * (length text - i) + idx_value j"
proof -
  from pos obtain k where k: "j = Idx k" "k < length pattern" "k \<le> i"
    by (auto simp: kmp_pos_def)
  show ?thesis
  proof (cases "get text i = get pattern k")
    case True
    show ?thesis
    proof (cases "Suc k = length pattern")
      case full: True
      from table_ok_before [OF ok, of "Suc k"] k
      obtain v where "get_before table (Idx (Suc k)) = Idx v" "v < Suc k" by auto
      then show ?thesis
        using True full k run
        by (auto simp add: count_kmp_body_def kmp_pos_def idx_value_def Let_def simp del: get_before.simps)
    next
      case False
      from table_ok_before [OF ok, of "Suc k"] k
      obtain v where "get_before table (Idx (Suc k)) = Idx v" "v < Suc k" by auto
      then show ?thesis
        using True False k run
        by (auto simp add: count_kmp_body_def kmp_pos_def idx_value_def Let_def simp del: get_before.simps)
    qed
  next
    case False
    show ?thesis
    proof (cases "k = 0")
      case True
      then show ?thesis
        using False k run
        by (auto simp add: count_kmp_body_def kmp_pos_def idx_value_def Let_def simp del: get_before.simps)
    next
      case nz: False
      from table_ok_before [OF ok, of k] k nz
      obtain v where "get_before table (Idx k) = Idx v" "v < k" by auto
      then show ?thesis
        using False nz k run
        by (auto simp add: count_kmp_body_def kmp_pos_def idx_value_def Let_def simp del: get_before.simps)
    qed
  qed
qed

lemma kmp_body_pos:
  assumes "table_ok table pattern" "kmp_pos text pattern (k_i s) (k_j s)" "k_i s < length text"
  shows "kmp_pos text pattern (k_i (kmp_body table text pattern s))
           (k_j (kmp_body table text pattern s)) \<and>
         kmp_measure text (kmp_body table text pattern s) < kmp_measure text s"
proof -
  have "k_i (kmp_body table text pattern s) = fst (count_kmp_body table text pattern (k_i s) (k_j s))"
       "k_j (kmp_body table text pattern s) = snd (count_kmp_body table text pattern (k_i s) (k_j s))"
    by (simp_all flip: kmp_body_ij)
  then show ?thesis
    using count_kmp_body_pos [OF assms] by (simp add: kmp_measure_def)
qed


lemma kmp_body_oob:
  assumes ok: "table_ok table pattern" and pos: "kmp_pos text pattern (k_i s) (k_j s)"
    and run: "k_i s < length text" and nb: "\<not> oob (k_run s)"
  shows "\<not> oob (k_run (kmp_body table text pattern s))"
proof -
  from pos obtain k where k: "k_j s = Idx k" "k < length pattern" "k \<le> k_i s"
    by (auto simp: kmp_pos_def)
  have before: "\<And>v. 0 < v \<Longrightarrow> v \<le> length pattern \<Longrightarrow> inside_before table (Idx v)"
    using table_ok_before [OF ok] by blast
  have b1: "inside_before table (Idx (Suc k))" using before [of "Suc k"] k by simp
  have b2: "k \<noteq> 0 \<Longrightarrow> inside_before table (Idx k)" using before [of k] k by simp
  show ?thesis
    using k run nb b1 b2
    by (auto simp: kmp_body_def Let_def simp del: get_before.simps inside_before.simps)
qed

lemma kmp_body_steps:
  "steps (k_run (kmp_body table text pattern s)) = steps (k_run s) \<or>
   (\<exists>x. steps (k_run (kmp_body table text pattern s)) = steps (k_run s) @ [x] \<and>
        length (comparisons x) = 1 \<and> totalComparisons x = total (k_run s) + 1)"
  by (simp add: kmp_body_def Let_def)

lemma kmp_body_found:
  assumes pos: "kmp_pos text pattern (k_i s) (k_j s)"
    and run: "k_i s < length text" and long: "length text < length pattern"
  shows "foundMatches (k_run (kmp_body table text pattern s)) = foundMatches (k_run s)"
proof -
  from pos obtain k where k: "k_j s = Idx k" "k < length pattern" "k \<le> k_i s"
    by (auto simp: kmp_pos_def)
  then show ?thesis
    using run long by (auto simp: kmp_body_def Let_def simp del: get_before.simps)
qed

lemma kmp_loop_inv:
  assumes ok: "table_ok table pattern"
    and pos: "kmp_pos text pattern (k_i s) (k_j s)"
    and q: "Q s"
    and step: "\<And>s. Q s \<Longrightarrow> kmp_pos text pattern (k_i s) (k_j s) \<Longrightarrow> k_i s < length text \<Longrightarrow>
                 Q (kmp_body table text pattern s)"
  shows "\<exists>s'. kmp_loop table text pattern s = Some s' \<and> Q s' \<and> k_i s' = length text"
proof -
  let ?I = "\<lambda>s. kmp_pos text pattern (k_i s) (k_j s) \<and> Q s"
  have "\<exists>s'. kmp_loop table text pattern s = Some s' \<and> ?I s' \<and> \<not> k_i s' < length text"
  proof (rule kmp_loop_rule [where I = ?I and f = "kmp_measure text"])
    show "?I s" using pos q by simp
  next
    fix s assume "?I s" "k_i s < length text"
    then show "?I (kmp_body table text pattern s) \<and>
               kmp_measure text (kmp_body table text pattern s) < kmp_measure text s"
      using kmp_body_pos [OF ok] step by blast
  qed
  then show ?thesis by (auto simp: kmp_pos_def)
qed

lemma kmpStringMatching_inv:
  assumes ne: "pattern \<noteq> []"
    and init: "Q (kmp_init False)"
    and step: "\<And>table s. table_ok table pattern \<Longrightarrow> Q s \<Longrightarrow>
                 kmp_pos text pattern (k_i s) (k_j s) \<Longrightarrow> k_i s < length text \<Longrightarrow>
                 Q (kmp_body table text pattern s)"
  shows "\<exists>s. kmpStringMatching text pattern = Some (k_run s) \<and> Q s \<and> k_i s = length text"
proof -
  from computeKMPPrefixTable_returns [of pattern]
  obtain t where t: "computeKMPPrefixTable pattern = Some t" "table_ok (lps t) pattern" "\<not> lps_oob t"
    by blast
  have pos: "kmp_pos text pattern (k_i (kmp_init False)) (k_j (kmp_init False))"
    using ne by (simp add: kmp_pos_def kmp_init_def)
  from kmp_loop_inv [of "lps t" pattern "text" "kmp_init False" Q, OF t(2) pos init step [OF t(2)]]
  obtain s' where "kmp_loop (lps t) text pattern (kmp_init False) = Some s'" "Q s'"
    "k_i s' = length text"
    by blast
  then show ?thesis using t by (auto simp: kmpStringMatching_def)
qed


section \<open>The Naive variant on an empty pattern\<close>

lemma inner_loop_empty: "inner_loop text [] i s = s"
  by (simp add: inner_loop.simps)

lemma naive_loop_empty:
  "total r = 0 \<Longrightarrow> naive_loop text [] i r =
     r\<lparr>steps := steps r @ map empty_pattern_step [i..<Suc (length text)],
       foundMatches := foundMatches r @ map int [i..<Suc (length text)],
       history := history r @
          map (\<lambda>k. \<lparr>h_step = k, h_comparisons = 0, h_totalComparisons = 0\<rparr>)
            [i..<Suc (length text)]\<rparr>"
proof (induction "Suc (length text) - i" arbitrary: i r)
  case 0
  then show ?case
    by (simp add: naive_loop.simps [of _ "[]" i] del: upt_Suc)
next
  case (Suc d)
  then have le: "i \<le> length text" by simp
  have up: "[i..<Suc (length text)] = i # [Suc i..<Suc (length text)]"
    using le by (simp add: upt_conv_Cons)
  from Suc have "d = Suc (length text) - Suc i" by simp
  note IH = Suc.hyps(1) [OF this]
  show ?case
    using le Suc.prems
    by (subst naive_loop.simps)
       (simp add: naive_body_def inner_loop_empty IH up empty_pattern_step_def del: upt_Suc)
qed

text \<open>
  Claim C10. For every text, the Naive variant on the empty pattern returns without
  error exactly \<open>|text| + 1\<close> steps, one per offset \<open>0, \<dots>, |text|\<close>, each tagged as a
  match, with no comparison record and a running total of 0; the match positions are
  \<open>0, 1, \<dots>, |text|\<close>, the last of which is the offset \<open>|text|\<close> past the end of the text.
\<close>

theorem naive_empty_pattern:
  "steps (naiveStringMatching text []) = map empty_pattern_step [0..<Suc (length text)] \<and>
   length (steps (naiveStringMatching text [])) = length text + 1 \<and>
   foundMatches (naiveStringMatching text []) = map int [0..<Suc (length text)] \<and>
   last (foundMatches (naiveStringMatching text [])) = int (length text) \<and>
   total (naiveStringMatching text []) = 0"
  by (simp add: naiveStringMatching_def naive_loop_empty empty_run_def del: upt_Suc)
     (simp add: last_map)

section \<open>A pattern longer than the text\<close>

lemma js_plus_NaN [simp]: "js_plus x NaN = NaN"
  by (cases x) simp_all

lemma calculateHash_loop_oob:
  "snd (calculateHash_loop str stop i h ob) = (ob \<or> (i < stop \<and> length str < stop))"
proof (induction str stop i h ob rule: calculateHash_loop.induct)
  case (1 str stop i h ob)
  show ?case
  proof (cases "i < stop")
    case True
    then show ?thesis
      using "1.IH" by (subst calculateHash_loop.simps) auto
  next
    case False
    then show ?thesis by (subst calculateHash_loop.simps) simp
  qed
qed

lemma calculateHash_loop_NaN:
  "i < stop \<Longrightarrow> h = NaN \<or> length str < stop \<Longrightarrow> fst (calculateHash_loop str stop i h ob) = NaN"
proof (induction str stop i h ob rule: calculateHash_loop.induct)
  case (1 str stop i h ob)
  let ?h = "js_mod (js_plus (js_times h (Number 256)) (charCodeAt str i)) prime"
  show ?case
  proof (cases "Suc i < stop")
    case True
    have "?h = NaN \<or> length str < stop"
      using "1.prems" by auto
    with "1.IH" [OF "1.prems"(1)] True "1.prems"(1) show ?thesis
      by (subst calculateHash_loop.simps) simp
  next
    case False
    with "1.prems" have last: "stop = Suc i" by simp
    have "?h = NaN"
      using "1.prems"(2) last by (auto simp: charCodeAt_def)
    then show ?thesis
      using last
      by (subst calculateHash_loop.simps, simp, subst calculateHash_loop.simps, simp)
  qed
qed

lemma naive_loop_long:
  "length text < length pattern \<Longrightarrow> naive_loop text pattern i r = r"
  by (subst naive_loop.simps) simp

lemma rk_loop_long:
  "length text < length pattern \<Longrightarrow> rk_loop text pattern ph i th r = r"
  by (subst rk_loop.simps) simp

text \<open>
  Claim C9. \<open>rabinKarpStringMatching\<close> computes the hash of the first window,
  \<open>calculateHash(text, 0, pattern.length)\<close>, before anything compares the two lengths.
  For every input with \<open>|pattern| > |text|\<close> that computation calls \<open>charCodeAt\<close> at
  positions from \<open>|text|\<close> on: the out-of-bounds mark is raised and the hash is \<open>NaN\<close>.
  The window loop then runs zero times, so the trace has no step.
\<close>

theorem rabin_karp_initial_hash_out_of_bounds:
  assumes "length text < length pattern"
  shows "snd (calculateHash text 0 (length pattern)) \<and>
         fst (calculateHash text 0 (length pattern)) = NaN \<and>
         oob (rabinKarpStringMatching text pattern) \<and>
         steps (rabinKarpStringMatching text pattern) = []"
proof -
  have pos: "0 < length pattern" using assms by (cases pattern) simp_all
  have "snd (calculateHash text 0 (length pattern))"
    using assms by (auto simp add: calculateHash_def calculateHash_loop_oob)
  moreover have "fst (calculateHash text 0 (length pattern)) = NaN"
    using assms pos by (simp add: calculateHash_def calculateHash_loop_NaN)
  ultimately show ?thesis
    using assms by (simp add: rabinKarpStringMatching_def Let_def rk_loop_long empty_run_def)
qed

theorem rabin_karp_initial_hash_out_of_bounds_witness:
  "length [65, 66 :: 16 word] < length [65, 66, 67 :: 16 word] \<and>
   snd (calculateHash [65, 66] 0 (length [65, 66, 67 :: 16 word])) \<and>
   fst (calculateHash [65, 66] 0 (length [65, 66, 67 :: 16 word])) = NaN \<and>
   oob (rabinKarpStringMatching [65, 66] [65, 66, 67]) \<and>
   steps (rabinKarpStringMatching [65, 66] [65, 66, 67]) = []"
  using rabin_karp_initial_hash_out_of_bounds [of "[65, 66]" "[65, 66, 67]"] by simp

lemma kmp_no_match_when_longer:
  assumes "length text < length pattern"
  shows "\<exists>r. kmpStringMatching text pattern = Some r \<and> foundMatches r = []"
proof -
  have ne: "pattern \<noteq> []" using assms by auto
  have "\<exists>s::kmp_state. kmpStringMatching text pattern = Some (k_run s) \<and>
          foundMatches (k_run s) = [] \<and> k_i s = length text"
  proof (rule kmpStringMatching_inv [where Q = "\<lambda>s. foundMatches (k_run s) = []", OF ne])
    show "foundMatches (k_run (kmp_init False)) = []"
      by (simp add: kmp_init_def empty_run_def)
  next
    fix table and s :: kmp_state
    assume "foundMatches (k_run s) = []" "kmp_pos text pattern (k_i s) (k_j s)"
      "k_i s < length text"
    then show "foundMatches (k_run (kmp_body table text pattern s)) = []"
      using kmp_body_found [OF _ _ assms] by simp
  qed
  then show ?thesis by blast
qed

lemma kmp_AB_ABC: "map_option steps (kmpStringMatching [65, 66] [65, 66, 67]) = Some []"
  by code_simp

text \<open>
  Claim C6, as amended. For a pattern longer than the text the Naive and the Rabin-Karp
  variants produce no step and no match position. The KMP variant has no such bound on
  its loop: it runs over the whole text and pushes a step at every mismatch, so only its
  match positions are empty. On \<open>text = "AB"\<close>, \<open>pattern = "ABC"\<close> it pushes no step
  either, since both symbols of the text match.
\<close>

theorem longer_pattern_traces:
  assumes "length text < length pattern"
  shows "steps (naiveStringMatching text pattern) = [] \<and>
         foundMatches (naiveStringMatching text pattern) = [] \<and>
         steps (rabinKarpStringMatching text pattern) = [] \<and>
         foundMatches (rabinKarpStringMatching text pattern) = [] \<and>
         (\<exists>r. kmpStringMatching text pattern = Some r \<and> foundMatches r = []) \<and>
         map_option steps (kmpStringMatching [65, 66] [65, 66, 67]) = Some []"
  using assms kmp_no_match_when_longer [OF assms] kmp_AB_ABC
  by (simp add: naiveStringMatching_def naive_loop_long rabinKarpStringMatching_def
        rk_loop_long Let_def empty_run_def)

theorem longer_pattern_traces_witness:
  "length [65, 66 :: 16 word] < length [65, 66, 67 :: 16 word] \<and>
   steps (naiveStringMatching [65, 66] [65, 66, 67]) = [] \<and>
   foundMatches (naiveStringMatching [65, 66] [65, 66, 67]) = [] \<and>
   steps (rabinKarpStringMatching [65, 66] [65, 66, 67]) = [] \<and>
   foundMatches (rabinKarpStringMatching [65, 66] [65, 66, 67]) = [] \<and>
   (\<exists>r. kmpStringMatching [65, 66] [65, 66, 67] = Some r \<and> foundMatches r = [])"
  using longer_pattern_traces [of "[65, 66]" "[65, 66, 67]"] by simp

text \<open>
  The claim as stated fails for KMP: \<open>text = "AB"\<close>, \<open>pattern = "XYZ"\<close> gives one
  mismatch step per text symbol.
\<close>

theorem kmp_steps_for_longer_pattern:
  "map_option steps (kmpStringMatching [65, 66] [88, 89, 90]) \<noteq> Some []"
  by code_simp

section \<open>Empty inputs and unknown tags in \<open>generateSteps\<close>\<close>

lemma kmp_empty_text:
  "pattern \<noteq> [] \<Longrightarrow> map_option steps (kmpStringMatching [] pattern) = Some []"
proof -
  from computeKMPPrefixTable_returns [of pattern]
  obtain t where "computeKMPPrefixTable pattern = Some t" by blast
  then show ?thesis
    by (simp add: kmpStringMatching_def kmp_loop.simps [of _ "[]"] kmp_init_def empty_run_def)
qed

text \<open>
  Claim C7, as amended. \<open>generateSteps\<close> validates nothing and has no error result. A
  tag other than \<open>"naive"\<close>, \<open>"kmp"\<close>, \<open>"rabin-karp"\<close> yields the empty step list; so
  does an empty text with a non-empty pattern, for all three algorithms; an empty pattern
  yields \<open>|text| + 1\<close> match steps in the Naive variant. Empty inputs are kept away from
  \<open>generateSteps\<close> only by the Start button, disabled when either input is empty.
\<close>

theorem generateSteps_reports_no_error:
  "(algorithm \<noteq> ''naive'' \<and> algorithm \<noteq> ''kmp'' \<and> algorithm \<noteq> ''rabin-karp'' \<longrightarrow>
      generateSteps algorithm text pattern = Some []) \<and>
   (pattern \<noteq> [] \<longrightarrow>
      generateSteps ''naive'' [] pattern = Some [] \<and>
      generateSteps ''kmp'' [] pattern = Some [] \<and>
      generateSteps ''rabin-karp'' [] pattern = Some []) \<and>
   generateSteps ''naive'' text [] = Some (map empty_pattern_step [0..<Suc (length text)]) \<and>
   (text = [] \<or> pattern = [] \<longrightarrow> start_disabled isRunning text pattern)"
proof -
  have "pattern \<noteq> [] \<Longrightarrow> length ([] :: jsstring) < length pattern" by simp
  then show ?thesis
    using kmp_empty_text [of pattern]
    by (auto simp: generateSteps_def start_disabled_def naiveStringMatching_def naive_loop_long
          naive_loop_empty rabinKarpStringMatching_def rk_loop_long Let_def empty_run_def
          simp del: upt_Suc)
qed

theorem generateSteps_reports_no_error_witness:
  "generateSteps ''quick'' [65, 66] [65] = Some [] \<and>
   generateSteps ''naive'' [] [65] = Some [] \<and>
   generateSteps ''kmp'' [] [65] = Some [] \<and>
   generateSteps ''rabin-karp'' [] [65] = Some [] \<and>
   generateSteps ''naive'' [65, 66] [] = Some (map empty_pattern_step [0..<Suc (length [65, 66 :: 16 word])]) \<and>
   start_disabled False [65, 66] []"
  using generateSteps_reports_no_error [of "''quick''" "[65, 66]" "[65]" False]
    generateSteps_reports_no_error [of "''naive''" "[65, 66]" "[]" False]
  by simp

text \<open>
  The claim as stated fails: an empty text with the pattern \<open>"A"\<close> returns the empty
  step list, the very value a run without steps returns.
\<close>

theorem generateSteps_empty_text_is_silent:
  "generateSteps ''naive'' [] [65] = Some []"
  by (simp add: generateSteps_def naiveStringMatching_def naive_loop_long empty_run_def)

section \<open>A KMP mismatch step that shows a matching comparison\<close>

text \<open>
  Claim C8. Take an iteration of the KMP loop in which \<open>text[i] = pattern[j]\<close>, the
  pattern is not completed by it, and the next text symbol differs from the next pattern
  symbol. The iteration pushes one step tagged as a mismatch with prefix shift. Its only
  comparison record is the matching pair \<open>(i, j)\<close> with \<open>match = true\<close>; the unequal
  pair \<open>(i + 1, j + 1)\<close> that selects the branch is tested in the \<open>else if\<close> and is
  neither recorded nor counted: the total grows by exactly one.
\<close>

theorem kmp_mismatch_step_after_match:
  assumes "k_j s = Idx j" "k_i s < length text" "j < length pattern"
    and "text ! k_i s = pattern ! j"
    and "Suc j \<noteq> length pattern"
    and "Suc (k_i s) < length text"
    and "text ! Suc (k_i s) \<noteq> pattern ! Suc j"
  shows "steps (k_run (kmp_body table text pattern s)) =
           steps (k_run s) @
             [\<lparr>textIndex = offset (Suc (k_i s)) (get_before table (Idx (Suc j))),
               patternIndex = 0,
               comparisons =
                 [\<lparr>cmp_textIndex = k_i s, cmp_patternIndex = Idx j, cmp_match = True\<rparr>],
               totalComparisons = total (k_run s) + 1,
               description = MismatchPrefixShift,
               detail = PrefixUse (Idx (Suc j)) (get_before table (Idx (Suc j)))\<rparr>] \<and>
         total (k_run (kmp_body table text pattern s)) = total (k_run s) + 1 \<and>
         k_i (kmp_body table text pattern s) = Suc (k_i s) \<and>
         k_j (kmp_body table text pattern s) = get_before table (Idx (Suc j))"
proof -
  have "Suc j < length pattern" using assms by simp
  then show ?thesis
    using assms
    by (simp add: kmp_body_def Let_def get_def del: get_before.simps)
qed

text \<open>The first iteration on \<open>text = "AB"\<close>, \<open>pattern = "AC"\<close>, and the whole run.\<close>

theorem kmp_mismatch_step_after_match_witness:
  "steps (k_run (kmp_body [0, 0] [65, 66] [65, 67] (kmp_init False))) =
     [\<lparr>textIndex = Number 1, patternIndex = 0,
       comparisons = [\<lparr>cmp_textIndex = 0, cmp_patternIndex = Idx 0, cmp_match = True\<rparr>],
       totalComparisons = 1,
       description = MismatchPrefixShift,
       detail = PrefixUse (Idx 1) (Idx 0)\<rparr>] \<and>
   total (k_run (kmp_body [0, 0] [65, 66] [65, 67] (kmp_init False))) = 1 \<and>
   k_i (kmp_body [0, 0] [65, 66] [65, 67] (kmp_init False)) = 1 \<and>
   k_j (kmp_body [0, 0] [65, 66] [65, 67] (kmp_init False)) = Idx 0"
  using kmp_mismatch_step_after_match [of "kmp_init False" 0 "[65, 66]" "[65, 67]" "[0, 0]"]
  by (simp add: kmp_init_def empty_run_def offset_def js_minus_def get_def)

lemma kmp_AB_AC:
  "kmpStringMatching [65, 66] [65, 67] =
     Some \<lparr>steps =
       [\<lparr>textIndex = Number 1, patternIndex = 0,
         comparisons = [\<lparr>cmp_textIndex = 0, cmp_patternIndex = Idx 0, cmp_match = True\<rparr>],
         totalComparisons = 1,
         description = MismatchPrefixShift,
         detail = PrefixUse (Idx 1) (Idx 0)\<rparr>,
        \<lparr>textIndex = Number 1, patternIndex = 0,
         comparisons = [\<lparr>cmp_textIndex = 1, cmp_patternIndex = Idx 0, cmp_match = False\<rparr>],
         totalComparisons = 2,
         description = MismatchAtBeginning,
         detail = PrefixUseNull\<rparr>],
       foundMatches = [], total = 2,
       history = [\<lparr>h_step = 0, h_comparisons = 1, h_totalComparisons = 1\<rparr>,
                  \<lparr>h_step = 1, h_comparisons = 1, h_totalComparisons = 2\<rparr>],
       oob = False\<rparr>"
  by code_simp

section \<open>Termination and reads inside the arrays\<close>

text \<open>
  With an empty pattern and a non-empty text the KMP loop never advances \<open>i\<close>: in the
  first iteration \<open>j === pattern.length\<close> holds at once and \<open>j\<close> becomes \<open>lps[-1]\<close>,
  that is \<open>undefined\<close>; from then on every iteration takes the prefix-shift branch.
\<close>

lemma kmp_body_empty_pattern_stays:
  assumes "k_i s = 0" "text \<noteq> []"
  shows "k_i (kmp_body table text [] s) = 0"
proof -
  have "get text 0 \<noteq> None" using assms(2) by (simp add: get_def)
  then show ?thesis
    using assms
    by (cases "k_j s") (auto simp: kmp_body_def Let_def get_def simp del: get_before.simps)
qed

lemma kmp_loop_empty_pattern_diverges:
  assumes "kmp_loop table text pattern s = Some y"
  shows "\<not> (pattern = [] \<and> text \<noteq> [] \<and> k_i s = 0)"
proof (rule kmp_loop.raw_induct
    [where P = "\<lambda>tb tx pt s y. \<not> (pt = [] \<and> tx \<noteq> [] \<and> k_i s = 0)", OF _ assms])
  fix loop :: "nat list \<Rightarrow> jsstring \<Rightarrow> jsstring \<Rightarrow> kmp_state \<Rightarrow> kmp_state option"
    and tb tx pt s y
  assume IH: "\<And>tb tx pt s y. loop tb tx pt s = Some y \<Longrightarrow>
                \<not> (pt = [] \<and> tx \<noteq> [] \<and> k_i s = 0)"
    and eq: "(if k_i s < length tx then loop tb tx pt (kmp_body tb tx pt s) else Some s) = Some y"
  show "\<not> (pt = [] \<and> tx \<noteq> [] \<and> k_i s = 0)"
  proof
    assume bad: "pt = [] \<and> tx \<noteq> [] \<and> k_i s = 0"
    then have "k_i s < length tx" by simp
    with eq have "loop tb tx pt (kmp_body tb tx pt s) = Some y"
      by simp
    from IH [OF this] bad kmp_body_empty_pattern_stays [of s tx tb]
    show False by simp
  qed
qed

lemma kmp_empty_pattern_never_returns:
  assumes "text \<noteq> []"
  shows "kmpStringMatching text [] = None"
proof -
  have "kmp_loop table text [] (kmp_init ob) = None" for table ob
  proof (cases "kmp_loop table text [] (kmp_init ob)")
    case (Some y)
    from kmp_loop_empty_pattern_diverges [OF this] assms show ?thesis
      by (simp add: kmp_init_def)
  qed simp
  then show ?thesis
    by (simp add: kmpStringMatching_def split: option.splits)
qed


lemma inner_loop_oob:
  "i + length pattern \<le> length text \<Longrightarrow>
   in_oob (inner_loop text pattern i s) = in_oob s"
proof (induction "text" pattern i s rule: inner_loop.induct)
  case (1 tx pattern i s)
  show ?case
  proof (cases "in_j s < length pattern")
    case True
    then have "i + in_j s < length tx" using "1.prems" by simp
    then show ?thesis
      using True "1.IH" "1.prems"
      by (subst inner_loop.simps) (simp add: Let_def)
  next
    case False
    then show ?thesis by (subst inner_loop.simps) simp
  qed
qed

lemma naive_body_oob:
  "int i \<le> int (length text) - int (length pattern) \<Longrightarrow>
   oob (naive_body text pattern i r) = oob r"
proof -
  assume "int i \<le> int (length text) - int (length pattern)"
  then have fit: "i + length pattern \<le> length text" by simp
  show ?thesis by (simp add: naive_body_def Let_def inner_loop_oob [OF fit])
qed

lemma naive_loop_oob:
  "\<not> oob r \<Longrightarrow> \<not> oob (naive_loop text pattern i r)"
proof (induction "text" pattern i r rule: naive_loop.induct)
  case (1 tx pattern i r)
  show ?case
  proof (cases "int i \<le> int (length tx) - int (length pattern)")
    case True
    then show ?thesis
      using "1.prems" "1.IH" by (subst naive_loop.simps) (simp add: naive_body_oob)
  next
    case False
    then show ?thesis using "1.prems" by (subst naive_loop.simps) simp
  qed
qed

lemma rk_body_oob:
  "int i \<le> int (length text) - int (length pattern) \<Longrightarrow>
   oob (rk_body text pattern ph i th r) = oob r"
proof -
  assume "int i \<le> int (length text) - int (length pattern)"
  then have fit: "i + length pattern \<le> length text" by simp
  show ?thesis by (auto simp add: rk_body_def Let_def inner_loop_oob [OF fit])
qed

lemma rk_loop_oob:
  "\<not> oob r \<Longrightarrow> \<not> oob (rk_loop text pattern ph i th r)"
proof (induction "text" pattern ph i th r rule: rk_loop.induct)
  case (1 tx pattern ph i th r)
  show ?case
  proof (cases "int i \<le> int (length tx) - int (length pattern)")
    case True
    then show ?thesis
      using "1.prems" "1.IH" by (subst rk_loop.simps) (simp add: rk_body_oob)
  next
    case False
    then show ?thesis using "1.prems" by (subst rk_loop.simps) simp
  qed
qed

lemma rabinKarp_in_bounds:
  "length pattern \<le> length text \<Longrightarrow> \<not> oob (rabinKarpStringMatching text pattern)"
  by (simp add: rabinKarpStringMatching_def Let_def calculateHash_def calculateHash_loop_oob
        rk_loop_oob empty_run_def)

lemma naive_in_bounds: "\<not> oob (naiveStringMatching text pattern)"
  by (simp add: naiveStringMatching_def naive_loop_oob empty_run_def)

lemma kmp_in_bounds:
  assumes "pattern \<noteq> []"
  shows "\<exists>r. kmpStringMatching text pattern = Some r \<and> \<not> oob r"
proof -
  have "\<exists>s::kmp_state. kmpStringMatching text pattern = Some (k_run s) \<and>
          \<not> oob (k_run s) \<and> k_i s = length text"
  proof (rule kmpStringMatching_inv [where Q = "\<lambda>s. \<not> oob (k_run s)", OF assms])
    show "\<not> oob (k_run (kmp_init False))"
      by (simp add: kmp_init_def empty_run_def)
  next
    fix table and s :: kmp_state
    assume "table_ok table pattern" "\<not> oob (k_run s)" "kmp_pos text pattern (k_i s) (k_j s)"
      "k_i s < length text"
    then show "\<not> oob (k_run (kmp_body table text pattern s))"
      using kmp_body_oob by blast
  qed
  then show ?thesis by blast
qed

lemma kmp_empty_text_in_bounds:
  "\<exists>r. kmpStringMatching [] pattern = Some r \<and> \<not> oob r"
proof -
  from computeKMPPrefixTable_returns [of pattern]
  obtain t where "computeKMPPrefixTable pattern = Some t" "\<not> lps_oob t" by blast
  then show ?thesis
    by (simp add: kmpStringMatching_def kmp_loop.simps [of _ "[]"] kmp_init_def empty_run_def)
qed


text \<open>
  Claim C4, as amended. The Naive variant returns and reads only inside \<open>text\<close> and
  \<open>pattern\<close> on every input, empty ones included. The KMP variant returns and reads only
  inside \<open>text\<close>, \<open>pattern\<close> and the prefix table whenever the pattern is non-empty or the
  text is empty; on an empty pattern with a non-empty text it never returns. The
  Rabin-Karp variant returns on every input; it reads only inside \<open>text\<close> and \<open>pattern\<close>
  exactly when the pattern is no longer than the text.
\<close>

theorem trace_generation_returns_in_bounds:
  "\<not> oob (naiveStringMatching text pattern) \<and>
   (\<exists>t. generateSteps ''naive'' text pattern = Some t) \<and>
   (pattern \<noteq> [] \<or> text = [] \<longrightarrow>
      (\<exists>r. kmpStringMatching text pattern = Some r \<and> \<not> oob r)) \<and>
   (pattern = [] \<and> text \<noteq> [] \<longrightarrow> kmpStringMatching text pattern = None) \<and>
   (\<exists>t. generateSteps ''rabin-karp'' text pattern = Some t) \<and>
   (length pattern \<le> length text \<longrightarrow> \<not> oob (rabinKarpStringMatching text pattern)) \<and>
   (length text < length pattern \<longrightarrow> oob (rabinKarpStringMatching text pattern))"
proof -
  have "length text < length pattern \<Longrightarrow> snd (calculateHash text 0 (length pattern))"
    by (auto simp add: calculateHash_def calculateHash_loop_oob)
  then have "length text < length pattern \<Longrightarrow> oob (rabinKarpStringMatching text pattern)"
    by (simp add: rabinKarpStringMatching_def Let_def rk_loop_long empty_run_def)
  then show ?thesis
    using naive_in_bounds kmp_in_bounds [of pattern "text"] kmp_empty_text_in_bounds [of pattern]
      kmp_empty_pattern_never_returns [of "text"] rabinKarp_in_bounds [of pattern "text"]
    by (auto simp: generateSteps_def)
qed

theorem trace_generation_returns_in_bounds_witness:
  "\<not> oob (naiveStringMatching [65, 66] [65]) \<and>
   (\<exists>t. generateSteps ''naive'' [65, 66] [65] = Some t) \<and>
   (\<exists>r. kmpStringMatching [65, 66] [65] = Some r \<and> \<not> oob r) \<and>
   (\<exists>t. generateSteps ''rabin-karp'' [65, 66] [65] = Some t) \<and>
   \<not> oob (rabinKarpStringMatching [65, 66] [65]) \<and>
   kmpStringMatching [65, 66] [] = None \<and>
   oob (rabinKarpStringMatching [65] [65, 66])"
  using trace_generation_returns_in_bounds [of "[65, 66]" "[65]"]
    trace_generation_returns_in_bounds [of "[65, 66]" "[]"]
    trace_generation_returns_in_bounds [of "[65]" "[65, 66]"]
  by simp

text \<open>
  The claim as stated fails: on \<open>text = "A"\<close> and the empty pattern the KMP variant
  does not terminate.
\<close>

theorem kmp_empty_pattern_loops_forever: "kmpStringMatching [65] [] = None"
  by (rule kmp_empty_pattern_never_returns) simp

section \<open>The running total and the comparison records\<close>

lemma records_snoc: "records (ss @ [x]) = records ss + length (comparisons x)"
  by (simp add: records_def)

lemma records_upto_snoc:
  "records_upto (ss @ [x]) k =
     (if k < length ss then records_upto ss k else records ss + length (comparisons x))"
  by (simp add: records_upto_def records_def)

lemma conserved_snoc:
  assumes "conserved u r"
    and "steps r' = steps r @ [x]"
    and "totalComparisons x = total r + length (comparisons x) + u"
    and "total r' = totalComparisons x"
  shows "conserved u r'"
proof -
  have "totalComparisons (steps r' ! k) = records_upto (steps r') k + u * Suc k"
    if "k < length (steps r')" for k
  proof (cases "k < length (steps r)")
    case True
    then show ?thesis
      using assms by (simp add: conserved_def nth_append records_upto_snoc)
  next
    case False
    with that assms(2) have "k = length (steps r)" by simp
    then show ?thesis
      using assms by (simp add: conserved_def nth_append records_upto_snoc)
  qed
  moreover have "total r' = records (steps r') + u * length (steps r')"
    using assms by (simp add: conserved_def records_snoc)
  ultimately show ?thesis by (simp add: conserved_def)
qed

lemma inner_loop_counts:
  "in_total (inner_loop text pattern i s) + length (currentComparisons s) =
     in_total s + length (currentComparisons (inner_loop text pattern i s))"
proof (induction "text" pattern i s rule: inner_loop.induct)
  case (1 tx pattern i s)
  show ?case
  proof (cases "in_j s < length pattern")
    case True
    then show ?thesis
      using "1.IH" by (subst (1 2) inner_loop.simps) (auto simp add: Let_def)
  next
    case False
    then show ?thesis by (subst (1 2) inner_loop.simps) simp
  qed
qed

lemma inner_loop_total:
  "in_total (inner_loop text pattern i
       \<lparr>in_j = 0, currentComparisons = [], in_total = t, stepComparisons = c, in_oob = b\<rparr>) =
   t + length (currentComparisons (inner_loop text pattern i
       \<lparr>in_j = 0, currentComparisons = [], in_total = t, stepComparisons = c, in_oob = b\<rparr>))"
  using inner_loop_counts [of "text" pattern i
      "\<lparr>in_j = 0, currentComparisons = [], in_total = t, stepComparisons = c, in_oob = b\<rparr>"]
  by simp

lemma naive_body_conserved:
  assumes "conserved 0 r"
  shows "conserved 0 (naive_body text pattern i r)"
proof (rule conserved_snoc [OF assms])
  let ?s = "inner_loop text pattern i
      \<lparr>in_j = 0, currentComparisons = [], in_total = total r, stepComparisons = 0, in_oob = oob r\<rparr>"
  let ?x = "last (steps (naive_body text pattern i r))"
  show "steps (naive_body text pattern i r) = steps r @ [?x]"
    by (simp add: naive_body_def Let_def)
  show "totalComparisons ?x = total r + length (comparisons ?x) + 0"
    using inner_loop_total [of "text" pattern i "total r" 0 "oob r"]
    by (simp add: naive_body_def Let_def)
  show "total (naive_body text pattern i r) = totalComparisons ?x"
    by (simp add: naive_body_def Let_def)
qed

lemma rk_body_conserved:
  assumes "conserved (Suc 0) r"
  shows "conserved (Suc 0) (rk_body text pattern ph i th r)"
proof (rule conserved_snoc [OF assms])
  let ?x = "last (steps (rk_body text pattern ph i th r))"
  show "steps (rk_body text pattern ph i th r) = steps r @ [?x]"
    by (simp add: rk_body_def Let_def)
  show "totalComparisons ?x = total r + length (comparisons ?x) + Suc 0"
    using inner_loop_total [of "text" pattern i "Suc (total r)" "Suc 0" "oob r"]
    by (simp add: rk_body_def Let_def)
  show "total (rk_body text pattern ph i th r) = totalComparisons ?x"
    by (simp add: rk_body_def Let_def)
qed

lemma naive_loop_conserved:
  "conserved 0 r \<Longrightarrow> conserved 0 (naive_loop text pattern i r)"
proof (induction "text" pattern i r rule: naive_loop.induct)
  case (1 tx pattern i r)
  then show ?case
    by (subst naive_loop.simps) (simp add: naive_body_conserved)
qed

lemma rk_loop_conserved:
  "conserved (Suc 0) r \<Longrightarrow> conserved (Suc 0) (rk_loop text pattern ph i th r)"
proof (induction "text" pattern ph i th r rule: rk_loop.induct)
  case (1 tx pattern ph i th r)
  then show ?case
    by (subst rk_loop.simps) (simp add: rk_body_conserved)
qed

lemma conserved_empty: "conserved u (empty_run\<lparr>oob := b\<rparr>)" "conserved u empty_run"
  by (simp_all add: conserved_def empty_run_def records_def)

lemma naive_conserved: "conserved 0 (naiveStringMatching text pattern)"
  by (simp add: naiveStringMatching_def naive_loop_conserved conserved_empty)

lemma rk_conserved: "conserved (Suc 0) (rabinKarpStringMatching text pattern)"
  by (simp add: rabinKarpStringMatching_def Let_def rk_loop_conserved conserved_empty)

lemma bounded_step:
  assumes "bounded r"
    and "steps r' = steps r \<or>
         (\<exists>x. steps r' = steps r @ [x] \<and> length (comparisons x) = 1 \<and>
              totalComparisons x = total r + 1)"
    and "total r' = total r + 1"
  shows "bounded r'"
proof -
  from assms(2) show ?thesis
  proof
    assume "steps r' = steps r"
    then show ?thesis using assms(1,3) by (auto simp: bounded_def)
  next
    assume "\<exists>x. steps r' = steps r @ [x] \<and> length (comparisons x) = 1 \<and>
              totalComparisons x = total r + 1"
    then obtain x where x: "steps r' = steps r @ [x]" "length (comparisons x) = 1"
      "totalComparisons x = total r + 1" by blast
    have "length (comparisons (steps r' ! k)) = 1 \<and>
          records_upto (steps r') k \<le> totalComparisons (steps r' ! k) \<and>
          totalComparisons (steps r' ! k) \<le> total r'"
      if "k < length (steps r')" for k
    proof (cases "k < length (steps r)")
      case True
      then show ?thesis
        using assms(1,3) x by (auto simp: bounded_def nth_append records_upto_snoc)
    next
      case False
      with that x(1) have "k = length (steps r)" by simp
      then show ?thesis
        using assms(1,3) x by (auto simp: bounded_def nth_append records_upto_snoc)
    qed
    moreover have "records (steps r') \<le> total r'"
      using assms(1,3) x by (simp add: bounded_def records_snoc)
    ultimately show ?thesis by (simp add: bounded_def)
  qed
qed

lemma kmp_bounded:
  assumes "pattern \<noteq> []"
  shows "\<exists>r. kmpStringMatching text pattern = Some r \<and> bounded r"
proof -
  have "\<exists>s::kmp_state. kmpStringMatching text pattern = Some (k_run s) \<and>
          bounded (k_run s) \<and> k_i s = length text"
  proof (rule kmpStringMatching_inv [where Q = "\<lambda>s. bounded (k_run s)", OF assms])
    show "bounded (k_run (kmp_init False))"
      by (simp add: kmp_init_def empty_run_def bounded_def records_def)
  next
    fix table and s :: kmp_state
    assume "bounded (k_run s)"
    then show "bounded (k_run (kmp_body table text pattern s))"
      using kmp_body_steps [of table "text" pattern s] kmp_body_total [of table "text" pattern s]
      by (rule bounded_step)
  qed
  then show ?thesis by blast
qed

lemma naive_loop_length:
  "length (steps (naive_loop text pattern i r)) =
     length (steps r) + nat (int (length text) - int (length pattern) + 1 - int i)"
proof (induction "text" pattern i r rule: naive_loop.induct)
  case (1 tx pattern i r)
  show ?case
  proof (cases "int i \<le> int (length tx) - int (length pattern)")
    case True
    have "length (steps (naive_body tx pattern i r)) = Suc (length (steps r))"
      by (simp add: naive_body_def Let_def)
    then show ?thesis
      using True "1.IH" by (subst naive_loop.simps) (simp add: nat_diff_distrib')
  next
    case False
    then show ?thesis by (subst naive_loop.simps) simp
  qed
qed

lemma rk_loop_length:
  "length (steps (rk_loop text pattern ph i th r)) =
     length (steps r) + nat (int (length text) - int (length pattern) + 1 - int i)"
proof (induction "text" pattern ph i th r rule: rk_loop.induct)
  case (1 tx pattern ph i th r)
  show ?case
  proof (cases "int i \<le> int (length tx) - int (length pattern)")
    case True
    have "length (steps (rk_body tx pattern ph i th r)) = Suc (length (steps r))"
      by (simp add: rk_body_def Let_def)
    then show ?thesis
      using True "1.IH" by (subst rk_loop.simps) (simp add: nat_diff_distrib')
  next
    case False
    then show ?thesis by (subst rk_loop.simps) simp
  qed
qed

lemma naive_length:
  "length (steps (naiveStringMatching text pattern)) =
     nat (int (length text) - int (length pattern) + 1)"
  by (simp add: naiveStringMatching_def naive_loop_length empty_run_def)

lemma rabinKarp_length:
  "length (steps (rabinKarpStringMatching text pattern)) =
     nat (int (length text) - int (length pattern) + 1)"
  by (simp add: rabinKarpStringMatching_def Let_def rk_loop_length empty_run_def)

lemma records_upto_last: "ss \<noteq> [] \<Longrightarrow> records_upto ss (length ss - Suc 0) = records ss"
  by (simp add: records_upto_def)

lemma conserved_last:
  assumes "conserved u r" "steps r \<noteq> []"
  shows "totalComparisons (last (steps r)) = records (steps r) + u * length (steps r)"
proof -
  have "length (steps r) - 1 < length (steps r)" using assms(2) by simp
  with assms(1) have "totalComparisons (steps r ! (length (steps r) - 1)) =
      records_upto (steps r) (length (steps r) - 1) + u * Suc (length (steps r) - 1)"
    unfolding conserved_def by blast
  then show ?thesis
    using assms(2) by (simp add: records_upto_last last_conv_nth)
qed


text \<open>
  Claim C2, as amended. In a Naive trace the \<open>totalComparisons\<close> of every step is the
  number of comparison records in the steps up to and including it, and the last step's
  value is the number of all records. In a Rabin-Karp trace it is that number plus one
  hash test for each window processed so far. In a KMP trace (non-empty pattern) every
  step holds exactly one record, but the counter also grows in the iterations that push
  no step, so the \<open>totalComparisons\<close> of a step is at least the number of records up to
  it and need not equal it.
\<close>

theorem comparison_count_conservation:
  "(\<forall>k<length (steps (naiveStringMatching text pattern)).
      totalComparisons (steps (naiveStringMatching text pattern) ! k) =
        records_upto (steps (naiveStringMatching text pattern)) k) \<and>
   (steps (naiveStringMatching text pattern) \<noteq> [] \<longrightarrow>
      totalComparisons (last (steps (naiveStringMatching text pattern))) =
        records (steps (naiveStringMatching text pattern))) \<and>
   (\<forall>k<length (steps (rabinKarpStringMatching text pattern)).
      totalComparisons (steps (rabinKarpStringMatching text pattern) ! k) =
        records_upto (steps (rabinKarpStringMatching text pattern)) k + Suc k) \<and>
   (steps (rabinKarpStringMatching text pattern) \<noteq> [] \<longrightarrow>
      totalComparisons (last (steps (rabinKarpStringMatching text pattern))) =
        records (steps (rabinKarpStringMatching text pattern)) +
        length (steps (rabinKarpStringMatching text pattern))) \<and>
   (pattern \<noteq> [] \<longrightarrow>
      (\<exists>r. kmpStringMatching text pattern = Some r \<and>
           (\<forall>k<length (steps r).
              length (comparisons (steps r ! k)) = 1 \<and>
              records_upto (steps r) k \<le> totalComparisons (steps r ! k))))"
proof -
  have n: "conserved 0 (naiveStringMatching text pattern)" by (rule naive_conserved)
  have r: "conserved (Suc 0) (rabinKarpStringMatching text pattern)" by (rule rk_conserved)
  have k: "pattern \<noteq> [] \<Longrightarrow> \<exists>r. kmpStringMatching text pattern = Some r \<and> bounded r"
    by (rule kmp_bounded)
  have k': "pattern \<noteq> [] \<Longrightarrow>
      \<exists>r. kmpStringMatching text pattern = Some r \<and>
           (\<forall>k<length (steps r).
              length (comparisons (steps r ! k)) = 1 \<and>
              records_upto (steps r) k \<le> totalComparisons (steps r ! k))"
  proof -
    assume "pattern \<noteq> []"
    from k [OF this] obtain r where "kmpStringMatching text pattern = Some r" "bounded r"
      by blast
    then show ?thesis unfolding bounded_def by blast
  qed
  from n have n1: "\<forall>k<length (steps (naiveStringMatching text pattern)).
      totalComparisons (steps (naiveStringMatching text pattern) ! k) =
        records_upto (steps (naiveStringMatching text pattern)) k"
    unfolding conserved_def by simp
  from r have r1: "\<forall>k<length (steps (rabinKarpStringMatching text pattern)).
      totalComparisons (steps (rabinKarpStringMatching text pattern) ! k) =
        records_upto (steps (rabinKarpStringMatching text pattern)) k + Suc k"
    unfolding conserved_def by simp
  show ?thesis
    using n1 r1 conserved_last [OF n] conserved_last [OF r] k'
    by (intro conjI impI) simp_all
qed


lemma naive_ABA_AB: "length (steps (naiveStringMatching [65, 66, 65] [65, 66])) = 2"
  by (simp add: naive_length)

lemma rabinKarp_ABA_AB: "length (steps (rabinKarpStringMatching [65, 66, 65] [65, 66])) = 2"
  by (simp add: rabinKarp_length)

theorem comparison_count_conservation_witness:
  "totalComparisons (steps (naiveStringMatching [65, 66, 65] [65, 66]) ! 1) =
     records_upto (steps (naiveStringMatching [65, 66, 65] [65, 66])) 1 \<and>
   totalComparisons (last (steps (naiveStringMatching [65, 66, 65] [65, 66]))) =
     records (steps (naiveStringMatching [65, 66, 65] [65, 66])) \<and>
   totalComparisons (steps (rabinKarpStringMatching [65, 66, 65] [65, 66]) ! 1) =
     records_upto (steps (rabinKarpStringMatching [65, 66, 65] [65, 66])) 1 + 2 \<and>
   totalComparisons (last (steps (rabinKarpStringMatching [65, 66, 65] [65, 66]))) =
     records (steps (rabinKarpStringMatching [65, 66, 65] [65, 66])) + 2 \<and>
   (\<exists>r. kmpStringMatching [65, 66, 65] [65, 66] = Some r)"
proof -
  note inst = comparison_count_conservation [of "[65, 66, 65]" "[65, 66]"]
  have n: "steps (naiveStringMatching [65, 66, 65] [65, 66]) \<noteq> []"
    and r: "steps (rabinKarpStringMatching [65, 66, 65] [65, 66]) \<noteq> []"
    using naive_ABA_AB rabinKarp_ABA_AB by auto
  have ne: "[65, 66 :: 16 word] \<noteq> []" by simp
  from inst have a: "totalComparisons (steps (naiveStringMatching [65, 66, 65] [65, 66]) ! 1) =
     records_upto (steps (naiveStringMatching [65, 66, 65] [65, 66])) 1"
    using naive_ABA_AB by simp
  from inst n have b: "totalComparisons (last (steps (naiveStringMatching [65, 66, 65] [65, 66]))) =
     records (steps (naiveStringMatching [65, 66, 65] [65, 66]))"
    by blast
  from inst have c: "totalComparisons (steps (rabinKarpStringMatching [65, 66, 65] [65, 66]) ! 1) =
     records_upto (steps (rabinKarpStringMatching [65, 66, 65] [65, 66])) 1 + 2"
    using rabinKarp_ABA_AB by simp
  from inst r have d: "totalComparisons (last (steps (rabinKarpStringMatching [65, 66, 65] [65, 66]))) =
     records (steps (rabinKarpStringMatching [65, 66, 65] [65, 66])) + 2"
    using rabinKarp_ABA_AB by simp
  from inst ne have e: "\<exists>r. kmpStringMatching [65, 66, 65] [65, 66] = Some r"
    by blast
  show ?thesis using a b c d e by blast
qed


text \<open>
  The claim as stated fails for KMP: on \<open>text = "AB"\<close>, \<open>pattern = "AB"\<close> the first
  iteration compares, advances and pushes nothing; the only step, pushed by the second
  iteration, holds one record and a total of 2.
\<close>

lemma kmp_AB_AB:
  "map_option steps (kmpStringMatching [65, 66] [65, 66]) =
     Some [\<lparr>textIndex = Number 0, patternIndex = 0,
            comparisons = [\<lparr>cmp_textIndex = 1, cmp_patternIndex = Idx 1, cmp_match = True\<rparr>],
            totalComparisons = 2, description = MatchFound (Number 0),
            detail = PrefixUseNull\<rparr>]"
  by code_simp

theorem kmp_total_exceeds_records:
  "map_option steps (kmpStringMatching [65, 66] [65, 66]) =
     Some [\<lparr>textIndex = Number 0, patternIndex = 0,
            comparisons = [\<lparr>cmp_textIndex = 1, cmp_patternIndex = Idx 1, cmp_match = True\<rparr>],
            totalComparisons = 2, description = MatchFound (Number 0),
            detail = PrefixUseNull\<rparr>] \<and>
   records_upto [\<lparr>textIndex = Number 0, patternIndex = 0,
            comparisons = [\<lparr>cmp_textIndex = 1, cmp_patternIndex = Idx 1, cmp_match = True\<rparr>],
            totalComparisons = 2, description = MatchFound (Number 0),
            detail = PrefixUseNull\<rparr>] 0 = 1"
  using kmp_AB_AB by (simp add: records_upto_def records_def)

section \<open>The counting functions and the traces\<close>

lemma count_inner_total:
  "count_inner text pattern i (in_j s) (in_total s) = in_total (inner_loop text pattern i s)"
proof (induction "text" pattern i s rule: inner_loop.induct)
  case (1 tx pattern i s)
  show ?case
  proof (cases "in_j s < length pattern")
    case True
    then show ?thesis
      using "1.IH"
      by (subst count_inner.simps, subst inner_loop.simps) (auto simp add: Let_def)
  next
    case False
    then show ?thesis by (subst count_inner.simps, subst inner_loop.simps) simp
  qed
qed

lemma naive_body_total:
  "total (naive_body text pattern i r) = count_inner text pattern i 0 (total r)"
  using count_inner_total [of "text" pattern i
      "\<lparr>in_j = 0, currentComparisons = [], in_total = total r, stepComparisons = 0, in_oob = oob r\<rparr>"]
  by (simp add: naive_body_def Let_def)

lemma rk_body_total:
  "total (rk_body text pattern ph i th r) =
     (if js_equals th ph then count_inner text pattern i 0 (total r + 1) else total r + 1)"
  using count_inner_total [of "text" pattern i
      "\<lparr>in_j = 0, currentComparisons = [], in_total = total r + 1, stepComparisons = 1, in_oob = oob r\<rparr>"]
  by (simp add: rk_body_def Let_def)

lemma countNaive_loop_total:
  "countNaive_loop text pattern i (total r) = total (naive_loop text pattern i r)"
proof (induction "text" pattern i r rule: naive_loop.induct)
  case (1 tx pattern i r)
  show ?case
  proof (cases "int i \<le> int (length tx) - int (length pattern)")
    case True
    then show ?thesis
      using "1.IH"
      by (subst countNaive_loop.simps, subst naive_loop.simps) (simp add: naive_body_total)
  next
    case False
    then show ?thesis by (subst countNaive_loop.simps, subst naive_loop.simps) simp
  qed
qed

lemma countRK_loop_total:
  "countRK_loop text pattern ph i th (total r) = total (rk_loop text pattern ph i th r)"
proof (induction "text" pattern ph i th r rule: rk_loop.induct)
  case (1 tx pattern ph i th r)
  show ?case
  proof (cases "int i \<le> int (length tx) - int (length pattern)")
    case True
    then show ?thesis
      using "1.IH"
      by (subst countRK_loop.simps, subst rk_loop.simps) (simp add: rk_body_total)
  next
    case False
    then show ?thesis by (subst countRK_loop.simps, subst rk_loop.simps) simp
  qed
qed

lemma countNaive_total:
  "countNaiveComparisons text pattern = total (naiveStringMatching text pattern)"
  using countNaive_loop_total [of "text" pattern 0 empty_run]
  by (simp add: countNaiveComparisons_def naiveStringMatching_def empty_run_def)

lemma countRabinKarp_total:
  "countRabinKarpComparisons text pattern = total (rabinKarpStringMatching text pattern)"
  using countRK_loop_total [of "text" pattern "fst (calculateHash pattern 0 (length pattern))" 0
      "fst (calculateHash text 0 (length pattern))"
      "empty_run\<lparr>oob := (snd (calculateHash pattern 0 (length pattern)) \<or>
                        snd (calculateHash text 0 (length pattern)))\<rparr>"]
  by (simp add: countRabinKarpComparisons_def rabinKarpStringMatching_def Let_def empty_run_def)

lemma conserved_last_total:
  assumes "conserved u r" "steps r \<noteq> []"
  shows "totalComparisons (last (steps r)) = total r"
  using conserved_last [OF assms] assms(1) by (simp add: conserved_def)

lemma naive_last_total:
  assumes "length pattern \<le> length text"
  shows "steps (naiveStringMatching text pattern) \<noteq> [] \<and>
         totalComparisons (last (steps (naiveStringMatching text pattern))) =
           total (naiveStringMatching text pattern)"
proof -
  have "length (steps (naiveStringMatching text pattern)) \<noteq> 0"
    using assms by (simp add: naive_length)
  then have "steps (naiveStringMatching text pattern) \<noteq> []" by simp
  then show ?thesis using conserved_last_total [OF naive_conserved] by simp
qed

lemma rabinKarp_last_total:
  assumes "length pattern \<le> length text"
  shows "steps (rabinKarpStringMatching text pattern) \<noteq> [] \<and>
         totalComparisons (last (steps (rabinKarpStringMatching text pattern))) =
           total (rabinKarpStringMatching text pattern)"
proof -
  have "length (steps (rabinKarpStringMatching text pattern)) \<noteq> 0"
    using assms by (simp add: rabinKarp_length)
  then have "steps (rabinKarpStringMatching text pattern) \<noteq> []" by simp
  then show ?thesis using conserved_last_total [OF rk_conserved] by simp
qed

lemma count_lps_loop_returns:
  "lps_inv pattern s \<Longrightarrow>
   \<exists>k t. count_lps_loop pattern c s = Some (c + k, t) \<and> lps_loop pattern s = Some t \<and>
         lps_inv pattern t"
proof (induction "lps_measure pattern s" arbitrary: s c rule: less_induct)
  case less
  show ?case
  proof (cases "lps_i s < length pattern")
    case True
    from lps_body_inv [OF less.prems True]
    have inv: "lps_inv pattern (lps_body pattern s)"
      and dec: "lps_measure pattern (lps_body pattern s) < lps_measure pattern s" by auto
    from less.hyps [OF dec inv, of "c + 1"]
    obtain k t where "count_lps_loop pattern (c + 1) (lps_body pattern s) = Some (c + 1 + k, t)"
      "lps_loop pattern (lps_body pattern s) = Some t" "lps_inv pattern t" by blast
    then have "count_lps_loop pattern c s = Some (c + (1 + k), t) \<and>
               lps_loop pattern s = Some t \<and> lps_inv pattern t"
      using True by (subst count_lps_loop.simps, subst lps_loop.simps) simp
    then show ?thesis by blast
  next
    case False
    then have "count_lps_loop pattern c s = Some (c + 0, s) \<and>
               lps_loop pattern s = Some s \<and> lps_inv pattern s"
      using less.prems by (subst count_lps_loop.simps, subst lps_loop.simps) simp
    then show ?thesis by blast
  qed
qed

lemma count_kmp_loop_returns:
  assumes ok: "table_ok table pattern"
  shows "kmp_pos text pattern (k_i s) (k_j s) \<Longrightarrow>
   \<exists>d s'. kmp_loop table text pattern s = Some s' \<and>
          count_kmp_loop table text pattern c (k_i s, k_j s) = Some (c + d) \<and>
          total (k_run s') = total (k_run s) + d"
proof (induction "kmp_measure text s" arbitrary: s c rule: less_induct)
  case less
  show ?case
  proof (cases "k_i s < length text")
    case True
    let ?b = "kmp_body table text pattern s"
    from kmp_body_pos [OF ok less.prems True]
    have pos: "kmp_pos text pattern (k_i ?b) (k_j ?b)"
      and dec: "kmp_measure text ?b < kmp_measure text s" by auto
    from less.hyps [OF dec pos, of "c + 1"]
    obtain d s' where s': "kmp_loop table text pattern ?b = Some s'"
      "count_kmp_loop table text pattern (c + 1) (k_i ?b, k_j ?b) = Some (c + 1 + d)"
      "total (k_run s') = total (k_run ?b) + d" by blast
    have "kmp_loop table text pattern s = Some s' \<and>
          count_kmp_loop table text pattern c (k_i s, k_j s) = Some (c + (1 + d)) \<and>
          total (k_run s') = total (k_run s) + (1 + d)"
      using True s' kmp_body_ij [of table "text" pattern s] kmp_body_total [of table "text" pattern s]
      by (subst kmp_loop.simps, subst count_kmp_loop.simps) simp
    then show ?thesis by blast
  next
    case False
    then have "kmp_loop table text pattern s = Some s \<and>
          count_kmp_loop table text pattern c (k_i s, k_j s) = Some (c + 0) \<and>
          total (k_run s) = total (k_run s) + 0"
      by (subst kmp_loop.simps, subst count_kmp_loop.simps) simp
    then show ?thesis by blast
  qed
qed

lemma bounded_last:
  assumes "bounded r" "steps r \<noteq> []"
  shows "totalComparisons (last (steps r)) \<le> total r"
proof -
  have "length (steps r) - 1 < length (steps r)" using assms(2) by simp
  with assms(1) have "totalComparisons (steps r ! (length (steps r) - 1)) \<le> total r"
    unfolding bounded_def by blast
  then show ?thesis using assms(2) by (simp add: last_conv_nth)
qed

lemma countKMP_total:
  assumes "pattern \<noteq> []"
  shows "\<exists>c t r. count_lps_loop pattern 0 (lps_init pattern) = Some (c, t) \<and>
           kmpStringMatching text pattern = Some r \<and>
           countKMPComparisons text pattern = Some (c + total r) \<and>
           (steps r \<noteq> [] \<longrightarrow> totalComparisons (last (steps r)) \<le> total r)"
proof -
  from count_lps_loop_returns [OF lps_init_inv, of pattern 0]
  obtain c t where t: "count_lps_loop pattern 0 (lps_init pattern) = Some (c, t)"
    "lps_loop pattern (lps_init pattern) = Some t" "lps_inv pattern t" by auto
  then have ok: "table_ok (lps t) pattern" by (auto simp add: lps_inv_def)
  have pos: "kmp_pos text pattern (k_i (kmp_init (lps_oob t))) (k_j (kmp_init (lps_oob t)))"
    using assms by (simp add: kmp_pos_def kmp_init_def)
  from count_kmp_loop_returns [OF ok pos, of c]
  obtain d s' where s': "kmp_loop (lps t) text pattern (kmp_init (lps_oob t)) = Some s'"
    "count_kmp_loop (lps t) text pattern c (0, Idx 0) = Some (c + d)"
    "total (k_run s') = d"
    by (auto simp: kmp_init_def empty_run_def)
  have run: "kmpStringMatching text pattern = Some (k_run s')"
    using t(2) s'(1) by (simp add: kmpStringMatching_def computeKMPPrefixTable_def)
  from kmp_bounded [OF assms, of "text"] run have "bounded (k_run s')" by simp
  then have "steps (k_run s') \<noteq> [] \<longrightarrow>
      totalComparisons (last (steps (k_run s'))) \<le> total (k_run s')"
    using bounded_last by blast
  moreover have "countKMPComparisons text pattern = Some (c + total (k_run s'))"
    using t(1) s'(2,3) by (simp add: countKMPComparisons_def)
  ultimately show ?thesis using t(1) run by blast
qed


text \<open>
  Claim C3, as amended. \<open>countNaiveComparisons\<close> and \<open>countRabinKarpComparisons\<close>
  return the final counter of the respective trace generator; when the pattern is no
  longer than the text the trace has a last step and this is its \<open>totalComparisons\<close>.
  \<open>countKMPComparisons\<close> (non-empty pattern) returns the number \<open>c\<close> of iterations of its
  prefix-table loop plus the final counter of \<open>kmpStringMatching\<close>, and that counter is
  at least the \<open>totalComparisons\<close> of the last step of the trace.
\<close>

theorem count_only_agrees_with_trace:
  "countNaiveComparisons text pattern = total (naiveStringMatching text pattern) \<and>
   (length pattern \<le> length text \<longrightarrow>
      steps (naiveStringMatching text pattern) \<noteq> [] \<and>
      countNaiveComparisons text pattern =
        totalComparisons (last (steps (naiveStringMatching text pattern)))) \<and>
   countRabinKarpComparisons text pattern = total (rabinKarpStringMatching text pattern) \<and>
   (length pattern \<le> length text \<longrightarrow>
      steps (rabinKarpStringMatching text pattern) \<noteq> [] \<and>
      countRabinKarpComparisons text pattern =
        totalComparisons (last (steps (rabinKarpStringMatching text pattern)))) \<and>
   (pattern \<noteq> [] \<longrightarrow>
      (\<exists>c t r. count_lps_loop pattern 0 (lps_init pattern) = Some (c, t) \<and>
           kmpStringMatching text pattern = Some r \<and>
           countKMPComparisons text pattern = Some (c + total r) \<and>
           (steps r \<noteq> [] \<longrightarrow> totalComparisons (last (steps r)) \<le> total r)))"
  using countNaive_total [of "text" pattern] countRabinKarp_total [of "text" pattern]
    naive_last_total [of pattern "text"] rabinKarp_last_total [of pattern "text"]
    countKMP_total [of pattern "text"]
  by (intro conjI impI) simp_all


theorem count_only_agrees_with_trace_witness:
  "countNaiveComparisons [65, 66, 65] [65, 66] =
     total (naiveStringMatching [65, 66, 65] [65, 66]) \<and>
   steps (naiveStringMatching [65, 66, 65] [65, 66]) \<noteq> [] \<and>
   countNaiveComparisons [65, 66, 65] [65, 66] =
     totalComparisons (last (steps (naiveStringMatching [65, 66, 65] [65, 66]))) \<and>
   countRabinKarpComparisons [65, 66, 65] [65, 66] =
     total (rabinKarpStringMatching [65, 66, 65] [65, 66]) \<and>
   steps (rabinKarpStringMatching [65, 66, 65] [65, 66]) \<noteq> [] \<and>
   countRabinKarpComparisons [65, 66, 65] [65, 66] =
     totalComparisons (last (steps (rabinKarpStringMatching [65, 66, 65] [65, 66]))) \<and>
   (\<exists>c t r. count_lps_loop [65, 66] 0 (lps_init [65, 66]) = Some (c, t) \<and>
      kmpStringMatching [65, 66, 65] [65, 66] = Some r \<and>
      countKMPComparisons [65, 66, 65] [65, 66] = Some (c + total r))"
proof -
  note inst = count_only_agrees_with_trace [of "[65, 66, 65]" "[65, 66]"]
  have le: "length [65, 66 :: 16 word] \<le> length [65, 66, 65 :: 16 word]" by simp
  have ne: "[65, 66 :: 16 word] \<noteq> []" by simp
  from inst le ne show ?thesis by blast
qed

text \<open>
  The claim as stated fails for KMP: on \<open>text = "AB"\<close>, \<open>pattern = "AB"\<close> the count is
  3 (one table comparison, two search comparisons) and the last step's total is 2.
\<close>

lemma countKMP_AB_AB: "countKMPComparisons [65, 66] [65, 66] = Some 3"
  by code_simp

theorem countKMP_exceeds_last_step:
  "countKMPComparisons [65, 66] [65, 66] = Some 3 \<and>
   map_option steps (kmpStringMatching [65, 66] [65, 66]) =
     Some [\<lparr>textIndex = Number 0, patternIndex = 0,
            comparisons = [\<lparr>cmp_textIndex = 1, cmp_patternIndex = Idx 1, cmp_match = True\<rparr>],
            totalComparisons = 2, description = MatchFound (Number 0),
            detail = PrefixUseNull\<rparr>]"
  using countKMP_AB_AB kmp_AB_AB by simp


section \<open>The rolling hash\<close>

lemma js_times_small:
  "\<bar>a * b\<bar> < 2 ^ 1024 \<Longrightarrow> js_times (Number a) (Number b) = Number (a * b)"
  by simp

lemma js_mod_nat:
  "js_mod (Number (of_nat a)) prime = Number (of_nat (a mod 101))"
proof -
  have q: "(of_nat a :: rat) / 101 = of_nat a / of_nat 101" by simp
  have "\<lfloor>(of_nat a :: rat) / 101\<rfloor> = int (a div 101)"
    unfolding q floor_divide_of_nat_eq by simp
  moreover have "(0::rat) \<le> of_nat a / 101" by simp
  ultimately have t: "truncate_quotient (of_nat a) 101 = int (a div 101)"
    by (simp add: truncate_quotient_def)
  have "a = 101 * (a div 101) + a mod 101" by simp
  then have "(of_nat a :: rat) = of_nat (101 * (a div 101) + a mod 101)" by simp
  then have "(of_nat a :: rat) = 101 * of_nat (a div 101) + of_nat (a mod 101)"
    by (simp only: of_nat_add of_nat_mult of_nat_numeral)
  then have "(of_nat a :: rat) - 101 * of_nat (a div 101) = of_nat (a mod 101)"
    by simp
  then show ?thesis by (simp add: prime_def t)
qed

lemma hash_step_js:
  assumes "h < 101" "i < length str"
  shows "js_mod (js_plus (js_times (Number (of_nat h)) (Number 256)) (charCodeAt str i)) prime =
         Number (of_nat (hash_step h (unat (str ! i))))"
proof -
  have "(of_nat h :: rat) * 256 < 101 * 256" using assms(1) by simp
  also have "\<dots> < 2 ^ 1024" by simp
  finally have "\<bar>(of_nat h :: rat) * 256\<bar> < 2 ^ 1024" by simp
  then have "js_times (Number (of_nat h)) (Number 256) = Number (of_nat h * 256)"
    by (rule js_times_small)
  moreover have "charCodeAt str i = Number (of_nat (unat (str ! i)))"
    using assms(2) by (simp add: charCodeAt_def)
  ultimately have "js_plus (js_times (Number (of_nat h)) (Number 256)) (charCodeAt str i) =
        Number (of_nat (h * 256 + unat (str ! i)))"
    by simp
  then show ?thesis by (simp only: js_mod_nat hash_step_def)
qed

lemma hash_step_less: "hash_step h c < 101"
  by (simp add: hash_step_def)

lemma calculateHash_loop_nat:
  assumes "stop \<le> length str" "h < 101"
  shows "fst (calculateHash_loop str stop i (Number (of_nat h)) ob) =
         Number (of_nat (foldl hash_step h (codes (take (stop - i) (drop i str)))))"
  using assms
proof (induction str stop i "Number (of_nat h)" ob arbitrary: h rule: calculateHash_loop.induct)
  case (1 str stop i ob)
  show ?case
  proof (cases "i < stop")
    case True
    then have il: "i < length str" using "1.prems" by simp
    have tk: "take (stop - i) (drop i str) = str ! i # take (stop - Suc i) (drop (Suc i) str)"
      using True il by (metis Cons_nth_drop_Suc Suc_diff_Suc take_Suc_Cons)
    note step = hash_step_js [OF "1.prems"(2) il]
    from "1.hyps" [OF True step "1.prems"(1) hash_step_less]
    have "fst (calculateHash_loop str stop (i + 1)
              (Number (of_nat (hash_step h (unat (str ! i))))) (ob \<or> length str \<le> i)) =
          Number (of_nat (foldl hash_step (hash_step h (unat (str ! i)))
              (codes (take (stop - (i + 1)) (drop (i + 1) str)))))" .
    then show ?thesis
      using True
      by (subst calculateHash_loop.simps)
         (simp add: step tk codes_def del: js_times.simps js_plus.simps js_mod.simps)
  next
    case False
    then show ?thesis by (subst calculateHash_loop.simps) (simp add: codes_def)
  qed
qed

lemma calculateHash_window:
  assumes "i + m \<le> length text"
  shows "fst (calculateHash text i (i + m)) = Number (of_nat (hash_of (window text m i)))"
  using calculateHash_loop_nat [of "i + m" "text" 0 i False] assms
  by (simp add: calculateHash_def hash_of_def window_def)

lemma val_fold: "foldl (\<lambda>v c. v * 256 + c) v cs = v * 256 ^ length cs + val cs"
proof (induction cs rule: rev_induct)
  case Nil
  show ?case by (simp add: val_def)
next
  case (snoc d cs)
  then show ?case by (simp add: val_def algebra_simps)
qed

lemma val_snoc: "val (cs @ [d]) = val cs * 256 + d"
  by (simp add: val_def)

lemma val_Cons: "val (c # cs) = c * 256 ^ length cs + val cs"
  using val_fold [of c cs] by (simp add: val_def)

lemma hash_fold: "foldl hash_step (h mod 101) cs = foldl (\<lambda>v c. v * 256 + c) h cs mod 101"
proof (induction cs arbitrary: h)
  case Nil
  show ?case by simp
next
  case (Cons c cs)
  have "hash_step (h mod 101) c = (h * 256 + c) mod 101"
    unfolding hash_step_def by (metis mod_add_left_eq mod_mult_left_eq)
  with Cons [of "h * 256 + c"] show ?case by simp
qed

lemma hash_of_val: "hash_of cs = val cs mod 101"
  using hash_fold [of 0 cs] by (simp add: hash_of_def val_def)

lemma roll_arith_small:
  assumes "a < 101" "v < 101"
  shows "((a + v) mod 101 + 101 - a) mod 101 = (v::nat)"
proof (cases "a + v < 101")
  case True
  then have "(a + v) mod 101 + 101 - a = v + 101" by simp
  then show ?thesis using assms(2) by simp
next
  case False
  then have "(a + v) mod 101 = a + v - 101"
    using assms by (simp add: mod_if)
  then have "(a + v) mod 101 + 101 - a = v" using False by simp
  then show ?thesis using assms(2) by simp
qed

lemma roll_arith:
  "(((A + V) mod 101 + 101 - A mod 101) * 256 + d) mod 101 = (V * 256 + d) mod (101::nat)"
proof -
  have "(A + V) mod 101 = (A mod 101 + V mod 101) mod 101"
    by (simp add: mod_add_eq)
  then have "((A + V) mod 101 + 101 - A mod 101) mod 101 = V mod 101"
    using roll_arith_small [of "A mod 101" "V mod 101"] by simp
  then have "(((A + V) mod 101 + 101 - A mod 101) * 256) mod 101 = (V * 256) mod 101"
    by (intro mod_mult_cong refl)
  then show ?thesis
    by (intro mod_add_cong refl)
qed

lemma window_Cons:
  assumes "i < length text" "1 \<le> m"
  shows "window text m i = unat (text ! i) # codes (take (m - 1) (drop (Suc i) text))"
proof -
  obtain k where m: "m = Suc k" using assms(2) by (cases m) auto
  have "drop i text = text ! i # drop (Suc i) text"
    using assms(1) by (simp add: Cons_nth_drop_Suc)
  then show ?thesis by (simp add: window_def codes_def m)
qed

lemma window_Suc:
  assumes "i + m < length text" "1 \<le> m"
  shows "window text m (Suc i) =
         codes (take (m - 1) (drop (Suc i) text)) @ [unat (text ! (i + m))]"
proof -
  obtain k where m: "m = Suc k" using assms(2) by (cases m) auto
  have "Suc i + k < length text" using assms(1) m by simp
  then have "take (Suc k) (drop (Suc i) text) =
      take k (drop (Suc i) text) @ [drop (Suc i) text ! k]"
    by (simp add: take_Suc_conv_app_nth)
  moreover have "drop (Suc i) text ! k = text ! (i + m)"
    using assms(1) m by simp
  ultimately show ?thesis by (simp add: window_def codes_def m)
qed

lemma hash_roll:
  assumes "i + m < length text" "1 \<le> m"
  shows "((hash_of (window text m i) + 101 - (unat (text ! i) * 256 ^ (m - 1)) mod 101) * 256 +
           unat (text ! (i + m))) mod 101 =
         hash_of (window text m (Suc i))"
proof -
  define w where "w = codes (take (m - 1) (drop (Suc i) text))"
  have len: "length w = m - 1" using assms by (simp add: codes_def w_def)
  have i: "i < length text" using assms by simp
  have "window text m i = unat (text ! i) # w"
    unfolding w_def by (rule window_Cons [OF i assms(2)])
  then have "hash_of (window text m i) = (unat (text ! i) * 256 ^ (m - 1) + val w) mod 101"
    by (simp only: hash_of_val val_Cons len)
  moreover have "window text m (Suc i) = w @ [unat (text ! (i + m))]"
    unfolding w_def by (rule window_Suc [OF assms])
  then have "hash_of (window text m (Suc i)) = (val w * 256 + unat (text ! (i + m))) mod 101"
    by (simp only: hash_of_val val_snoc)
  ultimately show ?thesis by (simp only: roll_arith)
qed

lemma is_finite_times_infinity: "\<not> is_finite (js_times (Number a) PosInfinity)"
  by (auto simp add: signed_infinity_def)

lemma is_finite_times:
  "is_finite (js_times (Number a) (Number b)) \<Longrightarrow> js_times (Number a) (Number b) = Number (a * b)"
  by (cases "\<bar>a * b\<bar> < 2 ^ 1024") (auto simp add: signed_infinity_def split: if_splits)

lemma roll_nat:
  assumes h: "h < 101" and i: "i + m < length text" and m: "1 \<le> m"
    and fin: "is_finite (js_times (charCodeAt text i) (Math_pow256 (int m - 1)))"
  shows "roll text m i (Number (of_nat h)) =
         Number (of_nat (((h + 101 - (unat (text ! i) * 256 ^ (m - 1)) mod 101) * 256 +
                          unat (text ! (i + m))) mod 101))"
proof -
  define c where "c = unat (text ! i)"
  define d where "d = unat (text ! (i + m))"
  define r where "r = (c * 256 ^ (m - 1)) mod 101"
  have cc: "charCodeAt text i = Number (of_nat c)"
    using i by (simp add: charCodeAt_def c_def)
  have cd: "charCodeAt text (i + m) = Number (of_nat d)"
    using i by (simp add: charCodeAt_def d_def)
  have small: "\<not> 128 \<le> int m - 1"
  proof
    assume "128 \<le> int m - 1"
    then have "Math_pow256 (int m - 1) = PosInfinity" by (simp add: Math_pow256_def)
    with fin cc have "is_finite (js_times (Number (of_nat c)) PosInfinity)" by simp
    with is_finite_times_infinity show False by blast
  qed
  have "int m - 1 = int (m - 1)" using m by simp
  then have "(256::rat) powi (int m - 1) = 256 ^ (m - 1)"
    by (simp only: power_int_of_nat)
  with small have pw: "Math_pow256 (int m - 1) = Number (256 ^ (m - 1))"
    by (simp add: Math_pow256_def)
  from fin have "js_times (Number (of_nat c)) (Number (256 ^ (m - 1))) =
      Number (of_nat c * 256 ^ (m - 1))"
    unfolding cc pw by (rule is_finite_times)
  also have "of_nat c * (256::rat) ^ (m - 1) = of_nat (c * 256 ^ (m - 1))" by simp
  finally have prod: "js_times (charCodeAt text i) (Math_pow256 (int m - 1)) =
      Number (of_nat (c * 256 ^ (m - 1)))"
    unfolding cc pw .
  have lead: "js_mod (js_times (charCodeAt text i) (Math_pow256 (int m - 1))) prime =
      Number (of_nat r)"
    unfolding prod r_def by (rule js_mod_nat)
  have rl: "r < 101" by (simp add: r_def)
  have sub: "js_plus (js_minus (Number (of_nat h)) (Number (of_nat r))) prime =
      Number (of_nat (h + 101 - r))"
    using rl by (simp add: js_minus_def prime_def)
  have "(of_nat (h + 101 - r) :: rat) * 256 < 202 * 256" using h by simp
  also have "\<dots> < 2 ^ 1024" by simp
  finally have "\<bar>(of_nat (h + 101 - r) :: rat) * 256\<bar> < 2 ^ 1024" by simp
  then have "js_times (Number (of_nat (h + 101 - r))) (Number 256) =
      Number (of_nat (h + 101 - r) * 256)"
    by (rule js_times_small)
  then have "js_plus (js_times (Number (of_nat (h + 101 - r))) (Number 256)) (Number (of_nat d)) =
      Number (of_nat ((h + 101 - r) * 256 + d))"
    by simp
  then have "roll text m i (Number (of_nat h)) =
      Number (of_nat (((h + 101 - r) * 256 + d) mod 101))"
    unfolding roll_def lead sub cd by (simp only: js_mod_nat)
  then show ?thesis by (simp only: r_def c_def d_def)
qed

lemma hash_of_less: "hash_of cs < 101"
  by (simp add: hash_of_val)

lemma rolled_window:
  assumes "1 \<le> m"
  shows "i + m \<le> length text \<Longrightarrow> exact_rolls text m i \<Longrightarrow>
         rolled text m i = Number (of_nat (hash_of (window text m i)))"
proof (induction i)
  case 0
  then show ?case using calculateHash_window [of 0 m "text"] by simp
next
  case (Suc i)
  then have fit: "i + m < length text" by simp
  from Suc.prems(2) have ex: "exact_rolls text m i"
    and fin: "is_finite (js_times (charCodeAt text i) (Math_pow256 (int m - 1)))"
    by (simp_all add: exact_rolls_def)
  from Suc.IH ex fit have "rolled text m i = Number (of_nat (hash_of (window text m i)))"
    by simp
  then have "rolled text m (Suc i) =
      Number (of_nat (((hash_of (window text m i) + 101 -
                        (unat (text ! i) * 256 ^ (m - 1)) mod 101) * 256 +
                       unat (text ! (i + m))) mod 101))"
    using roll_nat [OF hash_of_less fit assms fin] by simp
  then show ?case by (simp only: hash_roll [OF fit assms])
qed


lemma short_pattern_exact:
  assumes "m \<le> 127" "1 \<le> m" "i \<le> length text"
  shows "exact_rolls text m i"
proof -
  have "is_finite (js_times (charCodeAt text k) (Math_pow256 (int m - 1)))" if "k < i" for k
  proof -
    have k: "k < length text" using that assms(3) by simp
    have "int m - 1 = int (m - 1)" using assms(2) by simp
    then have "(256::rat) powi (int m - 1) = 256 ^ (m - 1)"
      by (simp only: power_int_of_nat)
    then have pw: "Math_pow256 (int m - 1) = Number (256 ^ (m - 1))"
      using assms(1) by (simp add: Math_pow256_def)
    define x :: rat where "x = of_nat (unat (text ! k))"
    define y :: rat where "y = 256 ^ (m - 1)"
    have "unat (text ! k) < 2 ^ 16"
      using unsigned_less [of "text ! k"] by simp
    then have lt: "x < 2 ^ 16"
      unfolding x_def by (metis of_nat_less_iff of_nat_numeral of_nat_power)
    have le: "y \<le> 256 ^ 126"
      unfolding y_def using assms(1) by (intro power_increasing) simp_all
    have x0: "0 \<le> x" unfolding x_def by (rule of_nat_0_le_iff)
    have y0: "0 < y" unfolding y_def by simp
    have "x * y < 2 ^ 16 * 256 ^ 126"
      by (rule mult_less_le_imp_less [OF lt le x0 y0])
    also have "(2::rat) ^ 16 * 256 ^ 126 = 2 ^ 1024" by simp
    finally have "x * y < 2 ^ 1024" .
    moreover have "0 \<le> x * y" using x0 y0 by simp
    ultimately have "\<bar>x * y\<bar> < 2 ^ 1024" by simp
    then have "js_times (Number x) (Number y) = Number (x * y)"
      by (rule js_times_small)
    moreover have "charCodeAt text k = Number x"
      using k by (simp add: charCodeAt_def x_def)
    ultimately show ?thesis
      by (simp only: pw y_def is_finite.simps)
  qed
  then show ?thesis by (simp add: exact_rolls_def list_all_iff)
qed

lemma rk_body_steps:
  "\<exists>x. steps (rk_body text pattern ph i th r) = steps r @ [x] \<and> hash_recorded ph th x"
  by (auto simp add: rk_body_def Let_def hash_recorded_def)

lemma rk_loop_hashes:
  assumes "length (steps r) = i"
    and "int i \<le> int (length text) - int (length pattern) \<longrightarrow> th = rolled text (length pattern) i"
    and "\<forall>k<i. hash_recorded ph (rolled text (length pattern) k) (steps r ! k)"
    and "int k \<le> int (length text) - int (length pattern)"
  shows "hash_recorded ph (rolled text (length pattern) k)
           (steps (rk_loop text pattern ph i th r) ! k)"
  using assms
proof (induction "text" pattern ph i th r rule: rk_loop.induct)
  case (1 tx pattern ph i th r)
  show ?case
  proof (cases "int i \<le> int (length tx) - int (length pattern)")
    case True
    let ?r = "rk_body tx pattern ph i th r"
    from rk_body_steps [of tx pattern ph i th r]
    obtain x where x: "steps ?r = steps r @ [x]" "hash_recorded ph th x" by blast
    have len: "length (steps ?r) = i + 1" using x "1.prems"(1) by simp
    have th: "th = rolled tx (length pattern) i" using True "1.prems"(2) by simp
    have nxt: "int (i + 1) \<le> int (length tx) - int (length pattern) \<longrightarrow>
        rk_hash tx pattern i th = rolled tx (length pattern) (i + 1)"
      using th by (simp add: rk_hash_def)
    have old: "\<forall>k<i + 1. hash_recorded ph (rolled tx (length pattern) k) (steps ?r ! k)"
    proof (intro allI impI)
      fix k assume "k < i + 1"
      then have "k < i \<or> k = i" by auto
      then show "hash_recorded ph (rolled tx (length pattern) k) (steps ?r ! k)"
        using x th "1.prems"(1,3) by (auto simp: nth_append)
    qed
    from "1.IH" [OF True len nxt old "1.prems"(4)] show ?thesis
      using True by (subst rk_loop.simps) simp
  next
    case False
    then have "k < i" using "1.prems"(4) by simp
    then show ?thesis
      using False "1.prems"(3) by (subst rk_loop.simps) simp
  qed
qed

lemma rabinKarp_hashes:
  assumes "int k \<le> int (length text) - int (length pattern)"
  shows "hash_recorded (fst (calculateHash pattern 0 (length pattern)))
           (rolled text (length pattern) k)
           (steps (rabinKarpStringMatching text pattern) ! k)"
  unfolding rabinKarpStringMatching_def Let_def
  by (rule rk_loop_hashes) (simp_all add: empty_run_def assms)

lemma roll_overflow:
  assumes "129 \<le> m"
  shows "roll text m i th = NaN"
proof -
  have pw: "Math_pow256 (int m - 1) = PosInfinity"
    using assms by (simp add: Math_pow256_def)
  have "js_mod (js_times (charCodeAt text i) PosInfinity) prime = NaN"
    by (cases "charCodeAt text i") (auto simp: signed_infinity_def prime_def)
  then show ?thesis
    by (simp add: roll_def pw js_minus_def)
qed

text \<open>
  Where the arithmetic of the rolls is exact, the rolled hash is the hash of the window
  computed directly, and it is the \<open>textHash\<close> that step \<open>i\<close> of the Rabin-Karp trace
  records. By \<open>short_pattern_exact\<close> this covers every pattern of at most 127 code units.
\<close>

lemma rolled_hash_when_exact:
  assumes "1 \<le> length pattern" "length pattern \<le> length text"
    and "i \<le> length text - length pattern"
    and "exact_rolls text (length pattern) i"
  shows "rolled text (length pattern) i = fst (calculateHash text i (i + length pattern)) \<and>
         hash_recorded (fst (calculateHash pattern 0 (length pattern)))
           (fst (calculateHash text i (i + length pattern)))
           (steps (rabinKarpStringMatching text pattern) ! i)"
proof -
  have fit: "i + length pattern \<le> length text" using assms by simp
  then have eq: "rolled text (length pattern) i = fst (calculateHash text i (i + length pattern))"
    using rolled_window [OF assms(1) _ assms(4)] calculateHash_window by simp
  have "int i \<le> int (length text) - int (length pattern)" using fit by simp
  from rabinKarp_hashes [OF this] eq show ?thesis by simp
qed

lemma affine_1: "affine 1 54 65"
proof -
  have "(h * 256 + 65) mod 101 = (54 * h + 65) mod 101" for h :: nat
  proof -
    have "h * 256 + 65 = (54 * h + 65) + 101 * (2 * h)" by simp
    then show ?thesis by (metis mod_mult_self2)
  qed
  then show ?thesis by (simp add: affine_def hash_step_def)
qed

lemma affine_add:
  assumes "affine n a b" "affine k c d"
  shows "affine (n + k) ((c * a) mod 101) ((c * b + d) mod 101)"
proof -
  have "foldl hash_step h (replicate (n + k) 65) =
        ((c * a) mod 101 * h + (c * b + d) mod 101) mod 101" for h
  proof -
    have "foldl hash_step h (replicate (n + k) 65) =
          foldl hash_step (foldl hash_step h (replicate n 65)) (replicate k 65)"
      by (simp add: replicate_add)
    also have "\<dots> = (c * ((a * h + b) mod 101) + d) mod 101"
      using assms by (simp add: affine_def)
    also have "\<dots> = (c * (a * h + b) + d) mod 101"
      by (intro mod_add_cong mod_mult_cong refl) simp
    also have "c * (a * h + b) + d = (c * a) * h + (c * b + d)"
      by (simp add: algebra_simps)
    also have "((c * a) * h + (c * b + d)) mod 101 =
               ((c * a) mod 101 * h + (c * b + d) mod 101) mod 101"
      by (intro mod_add_cong mod_mult_cong refl) simp_all
    finally show ?thesis .
  qed
  then show ?thesis by (simp add: affine_def)
qed

lemma hash_A129: "hash_of (replicate 129 65) = 25"
proof -
  have a2: "affine 2 88 40" using affine_add [OF affine_1 affine_1] by (simp add: numeral_2_eq_2)
  have a4: "affine 4 68 25" using affine_add [OF a2 a2] by simp
  have a8: "affine 8 79 8" using affine_add [OF a4 a4] by simp
  have a16: "affine 16 80 34" using affine_add [OF a8 a8] by simp
  have a32: "affine 32 37 27" using affine_add [OF a16 a16] by simp
  have a64: "affine 64 56 16" using affine_add [OF a32 a32] by simp
  have a128: "affine 128 5 3" using affine_add [OF a64 a64] by simp
  have "affine 129 68 25" using affine_add [OF a128 affine_1] by simp
  then have "foldl hash_step 0 (replicate 129 65) = (68 * 0 + 25) mod 101"
    unfolding affine_def by (rule spec)
  then show ?thesis by (simp only: hash_of_def) simp
qed

lemma window_A130: "window A130 129 (Suc 0) = replicate 129 65"
  unfolding window_def codes_def A130_def
  by (simp only: drop_replicate take_replicate map_replicate) simp

text \<open>
  Claim C5 fails on the code. For \<open>text\<close> = 130 letters \<open>A\<close> and \<open>pattern\<close> = 129 letters
  \<open>A\<close> the claim's conditions hold at the window offset 1. The hash computed directly,
  \<open>calculateHash(text, 1, 130)\<close>, is 25. The hash obtained from
  \<open>calculateHash(text, 0, 129)\<close> by one roll is \<open>NaN\<close>: the roll multiplies the leaving
  code unit by \<open>Math.pow(256, 128)\<close>, which is \<open>Infinity\<close>, and the remainder of
  \<open>Infinity\<close> is \<open>NaN\<close>.
\<close>

theorem rolled_hash_is_NaN_for_long_pattern:
  "1 \<le> length A129 \<and> length A129 \<le> length A130 \<and>
   1 \<le> length A130 - length A129 \<and>
   rolled A130 (length A129) 1 = NaN \<and>
   fst (calculateHash A130 1 (1 + length A129)) = Number 25"
proof -
  have len: "length A130 = 130" "length A129 = 129" by (simp_all add: A130_def A129_def)
  have r: "rolled A130 129 1 = NaN" by (simp add: roll_overflow)
  have "fst (calculateHash A130 (Suc 0) (Suc 0 + 129)) =
      Number (of_nat (hash_of (window A130 129 (Suc 0))))"
    by (rule calculateHash_window) (simp add: len)
  then have "fst (calculateHash A130 (Suc 0) (Suc 0 + 129)) = Number 25"
    by (simp only: window_A130 hash_A129) simp
  then have d: "fst (calculateHash A130 1 (1 + 129)) = Number 25" by simp
  show ?thesis unfolding len using r d by simp
qed

section \<open>The match positions of the Naive and Rabin-Karp variants\<close>

lemma inner_loop_j:
  "in_j s \<le> length pattern \<Longrightarrow>
   (in_j (inner_loop text pattern i s) = length pattern) =
   (\<forall>j. in_j s \<le> j \<and> j < length pattern \<longrightarrow> get text (i + j) = get pattern j)"
proof (induction "text" pattern i s rule: inner_loop.induct)
  case (1 tx pattern i s)
  show ?case
  proof (cases "in_j s < length pattern")
    case True
    show ?thesis
    proof (cases "get tx (i + in_j s) = get pattern (in_j s)")
      case eq: True
      have "(\<forall>j. in_j s \<le> j \<and> j < length pattern \<longrightarrow> get tx (i + j) = get pattern j) =
            (\<forall>j. in_j s + 1 \<le> j \<and> j < length pattern \<longrightarrow> get tx (i + j) = get pattern j)"
      proof (intro iffI allI impI)
        fix j
        assume "\<forall>j. in_j s \<le> j \<and> j < length pattern \<longrightarrow> get tx (i + j) = get pattern j"
          and "in_j s + 1 \<le> j \<and> j < length pattern"
        then show "get tx (i + j) = get pattern j" by simp
      next
        fix j
        assume all: "\<forall>j. in_j s + 1 \<le> j \<and> j < length pattern \<longrightarrow>
                       get tx (i + j) = get pattern j"
          and j: "in_j s \<le> j \<and> j < length pattern"
        show "get tx (i + j) = get pattern j"
        proof (cases "j = in_j s")
          case True
          then show ?thesis using eq by simp
        next
          case False
          with j have "in_j s + 1 \<le> j \<and> j < length pattern" by simp
          with all show ?thesis by blast
        qed
      qed
      moreover from "1.IH" [OF True refl] eq True
      have "(in_j (inner_loop tx pattern i s) = length pattern) =
            (\<forall>j. in_j s + 1 \<le> j \<and> j < length pattern \<longrightarrow> get tx (i + j) = get pattern j)"
        by (subst inner_loop.simps) (simp add: Let_def)
      ultimately show ?thesis by simp
    next
      case neq: False
      then have "in_j (inner_loop tx pattern i s) = in_j s"
        using True by (subst inner_loop.simps) (simp add: Let_def)
      then show ?thesis using True neq by auto
    qed
  next
    case False
    then have "in_j (inner_loop tx pattern i s) = in_j s"
      by (subst inner_loop.simps) simp
    then show ?thesis using False "1.prems" by auto
  qed
qed

lemma inner_loop_match:
  "(in_j (inner_loop text pattern i
       \<lparr>in_j = 0, currentComparisons = [], in_total = t, stepComparisons = c, in_oob = b\<rparr>) =
     length pattern) = match_at text pattern i"
  using inner_loop_j [of "\<lparr>in_j = 0, currentComparisons = [], in_total = t, stepComparisons = c, in_oob = b\<rparr>" pattern "text" i]
  by (simp add: match_at_def)

lemma naive_body_found:
  "foundMatches (naive_body text pattern i r) =
     foundMatches r @ (if match_at text pattern i then [int i] else [])"
  by (simp add: naive_body_def Let_def inner_loop_match)

lemma rk_body_found:
  "foundMatches (rk_body text pattern ph i th r) =
     foundMatches r @ (if js_equals th ph \<and> match_at text pattern i then [int i] else [])"
  by (simp add: rk_body_def Let_def inner_loop_match)

lemma naive_loop_found:
  "foundMatches (naive_loop text pattern i r) =
     foundMatches r @
     map int (filter (match_at text pattern)
        [i..<nat (int (length text) - int (length pattern) + 1)])"
proof (induction "text" pattern i r rule: naive_loop.induct)
  case (1 tx pattern i r)
  show ?case
  proof (cases "int i \<le> int (length tx) - int (length pattern)")
    case True
    then have "i < nat (int (length tx) - int (length pattern) + 1)" by simp
    then have up: "[i..<nat (int (length tx) - int (length pattern) + 1)] =
        i # [i + 1..<nat (int (length tx) - int (length pattern) + 1)]"
      by (simp add: upt_conv_Cons)
    show ?thesis
      using True "1.IH" by (subst naive_loop.simps) (simp add: naive_body_found up)
  next
    case False
    then show ?thesis by (subst naive_loop.simps) simp
  qed
qed

lemma naive_found:
  "foundMatches (naiveStringMatching text pattern) =
     map int (filter (match_at text pattern)
        [0..<nat (int (length text) - int (length pattern) + 1)])"
  by (simp add: naiveStringMatching_def naive_loop_found empty_run_def)

lemma rk_loop_found:
  assumes "int i \<le> int (length text) - int (length pattern) \<longrightarrow> th = rolled text (length pattern) i"
  shows "foundMatches (rk_loop text pattern ph i th r) =
     foundMatches r @
     map int (filter (\<lambda>k. js_equals (rolled text (length pattern) k) ph \<and> match_at text pattern k)
        [i..<nat (int (length text) - int (length pattern) + 1)])"
  using assms
proof (induction "text" pattern ph i th r rule: rk_loop.induct)
  case (1 tx pattern ph i th r)
  show ?case
  proof (cases "int i \<le> int (length tx) - int (length pattern)")
    case True
    then have "i < nat (int (length tx) - int (length pattern) + 1)" by simp
    then have up: "[i..<nat (int (length tx) - int (length pattern) + 1)] =
        i # [i + 1..<nat (int (length tx) - int (length pattern) + 1)]"
      by (simp add: upt_conv_Cons)
    have th: "th = rolled tx (length pattern) i" using True "1.prems" by simp
    have nxt: "int (i + 1) \<le> int (length tx) - int (length pattern) \<longrightarrow>
        rk_hash tx pattern i th = rolled tx (length pattern) (i + 1)"
      using th by (simp add: rk_hash_def)
    from "1.IH" [OF True nxt] show ?thesis
      using True th by (subst rk_loop.simps) (simp add: rk_body_found up)
  next
    case False
    then show ?thesis by (subst rk_loop.simps) simp
  qed
qed

lemma rabinKarp_found:
  "foundMatches (rabinKarpStringMatching text pattern) =
     map int (filter (\<lambda>k. js_equals (rolled text (length pattern) k)
                              (fst (calculateHash pattern 0 (length pattern))) \<and>
                           match_at text pattern k)
        [0..<nat (int (length text) - int (length pattern) + 1)])"
  unfolding rabinKarpStringMatching_def Let_def
  by (subst rk_loop_found) (simp_all add: empty_run_def)

lemma rolled_overflow: "129 \<le> m \<Longrightarrow> rolled text m (Suc i) = NaN"
  by (simp add: roll_overflow)

lemma match_at_window:
  assumes "match_at text pattern i" "i + length pattern \<le> length text"
  shows "window text (length pattern) i = codes pattern"
proof -
  have "take (length pattern) (drop i text) = pattern"
  proof (rule nth_equalityI)
    show "length (take (length pattern) (drop i text)) = length pattern"
      using assms(2) by simp
  next
    fix j assume "j < length (take (length pattern) (drop i text))"
    then have j: "j < length pattern" by simp
    with assms have "get text (i + j) = get pattern j" by (simp add: match_at_def)
    then show "take (length pattern) (drop i text) ! j = pattern ! j"
      using j assms(2) by (simp add: get_def)
  qed
  then show ?thesis by (simp add: window_def)
qed

lemma rabinKarp_agrees_when_exact:
  assumes "1 \<le> length pattern" "length pattern \<le> length text"
    and "exact_rolls text (length pattern) (length text - length pattern)"
  shows "foundMatches (rabinKarpStringMatching text pattern) =
         foundMatches (naiveStringMatching text pattern)"
proof -
  let ?m = "length pattern"
  let ?ph = "fst (calculateHash pattern 0 ?m)"
  have ph: "?ph = Number (of_nat (hash_of (codes pattern)))"
    using calculateHash_window [of 0 ?m pattern] by (simp add: window_def)
  have "(js_equals (rolled text ?m k) ?ph \<and> match_at text pattern k) = match_at text pattern k"
    if "k \<in> set [0..<nat (int (length text) - int ?m + 1)]" for k
  proof (cases "match_at text pattern k")
    case True
    from that assms(2) have k: "k \<le> length text - ?m" by auto
    then have fit: "k + ?m \<le> length text" using assms(2) by simp
    have "exact_rolls text ?m k"
      using assms(3) k by (auto simp: exact_rolls_def list_all_iff)
    from rolled_window [OF assms(1) fit this]
    have "rolled text ?m k = ?ph"
      by (simp add: ph match_at_window [OF True fit])
    then show ?thesis using True by (simp add: ph)
  qed simp
  then show ?thesis
    unfolding rabinKarp_found naive_found
    by (metis (mono_tags, lifting) filter_cong)
qed


lemma kmp_A130_A129:
  "map_option foundMatches (kmpStringMatching A130 A129) = Some [0, 1]"
  by code_simp

text \<open>
  Claim C1 fails on the code. For \<open>text\<close> = 130 letters \<open>A\<close> and \<open>pattern\<close> = 129 letters
  \<open>A\<close> the pattern occurs at the offsets 0 and 1, and the Naive and the KMP variant
  report both.
  The Rabin-Karp variant reports only 0: after the first window it rolls the hash with
  \<open>Math.pow(256, 128)\<close>, which is \<open>Infinity\<close>, so \<open>textHash\<close> becomes \<open>NaN\<close>, the hash test
  of the second window fails and its symbols are never compared.
\<close>

theorem rabin_karp_misses_match_for_long_pattern:
  "foundMatches (naiveStringMatching A130 A129) = [0, 1] \<and>
   map_option foundMatches (kmpStringMatching A130 A129) = Some [0, 1] \<and>
   foundMatches (rabinKarpStringMatching A130 A129) = [0]"
proof -
  have len: "length A130 = 130" "length A129 = 129" by (simp_all add: A130_def A129_def)
  have up: "[0..<2] = [0, Suc 0]" by (simp add: upt_conv_Cons)
  have m0: "match_at A130 A129 0" and m1: "match_at A130 A129 (Suc 0)"
    by (simp_all add: match_at_def get_def A130_def A129_def)
  have n: "foundMatches (naiveStringMatching A130 A129) = [0, 1]"
    by (simp add: naive_found len up m0 m1)
  have "window A130 129 0 = codes A129"
    using match_at_window [OF m0] by (simp add: len)
  then have "rolled A130 129 0 = fst (calculateHash A129 0 129)"
    using calculateHash_window [of 0 129 A130] calculateHash_window [of 0 129 A129]
    by (simp add: len window_def)
  moreover have "fst (calculateHash A129 0 129) = Number (of_nat (hash_of (codes A129)))"
    using calculateHash_window [of 0 129 A129] by (simp add: len window_def)
  ultimately have h0: "js_equals (rolled A130 129 0) (fst (calculateHash A129 0 129))"
    by simp
  have h1: "\<not> js_equals (rolled A130 129 (Suc 0)) (fst (calculateHash A129 0 129))"
    by (simp add: roll_overflow)
  have "foundMatches (rabinKarpStringMatching A130 A129) = [0]"
    unfolding rabinKarp_found len using h0 h1 m0 m1 by (simp add: up)
  with n kmp_A130_A129 show ?thesis by simp
qed

end
